theory Spec2Isabelle
  imports Main "HOL-Library.Sublist"
begin

section \<open>The read\_until input: data model\<close>

text \<open>
  The development follows \<^verbatim>\<open>lib/input/read_until.go\<close>. A channel is identified by the
  address of the channel object; \<^verbatim>\<open>make(chan ...)\<close> returns an address no live channel has.
  A Transaction pairs a payload with the channel its Response is written to
  (\<^verbatim>\<open>types.NewTransaction(payload, resChan)\<close>); a Response is read only through
  \<^verbatim>\<open>Error()\<close>, which is nil for an acknowledgement.

  Metrics and logging calls (\<^verbatim>\<open>r.stats.Incr\<close>, \<^verbatim>\<open>r.log.Errorf\<close>) have no influence on
  control flow and are left out.
\<close>

type_synonym chan = nat

datatype 'p transaction = NewTransaction (Payload: 'p) (ResponseChan: chan)

datatype response = NewSimpleResponse (Error: "string option")

datatype error = ErrTimeout | ErrNoChild | ErrCreateInput string | ErrCreateCondition string

datatype chan_state = Open | Closed

record ('c, 'k) ReadUntilConfig =
  Input :: "'c option"
  Restart :: bool
  Condition :: 'k


subsection \<open>The worker's control points\<close>

text \<open>
  The goroutine \<^verbatim>\<open>loop\<close> runs concurrently with callers of \<^verbatim>\<open>CloseAsync\<close> and
  \<^verbatim>\<open>WaitForClose\<close>, with the wrapped input and with the downstream reader. It is modelled as
  a transition system: \<open>point\<close> is the place where the goroutine currently stands, one
  constructor per place at which it can wait or at which another goroutine can observe an
  intermediate state.
\<close>

datatype 'p point =
    LoopHead                                \<comment> \<open>line 187, about to evaluate the loop guard\<close>
  | Restarting                              \<comment> \<open>line 191, inside the call of \<^verbatim>\<open>New\<close>\<close>
  | AwaitTran                               \<comment> \<open>select of line 205\<close>
  | Forwarding "'p transaction"             \<comment> \<open>select of line 218\<close>
  | ForwardingFinal "'p transaction" chan   \<comment> \<open>select of line 229, with \<^verbatim>\<open>tmpRes\<close>\<close>
  | AwaitRes "'p transaction" chan          \<comment> \<open>select of line 237\<close>
  | Relaying "'p transaction" response      \<comment> \<open>select of line 240\<close>
  | WaitWrapped                             \<comment> \<open>lines 173-175 of the deferred function\<close>
  | CloseOutput                             \<comment> \<open>line 179, about to close \<^verbatim>\<open>r.transactions\<close>\<close>
  | Confirm                                 \<comment> \<open>line 180, about to close \<^verbatim>\<open>r.closedChan\<close>\<close>
  | Finished

datatype wait_sel = ClosedChanReady | TimerFired

datatype ('p, 'w) event =
    LoopGuard                               \<comment> \<open>the worker evaluates the guard of line 187\<close>
  | Constructed "string + 'w"               \<comment> \<open>\<^verbatim>\<open>New\<close> returns at line 191\<close>
  | FromWrapped 'w "'p transaction"         \<comment> \<open>line 206 receives a transaction\<close>
  | WrappedClosed 'w                        \<comment> \<open>line 206 finds the channel closed\<close>
  | CloseSignal                             \<comment> \<open>a select takes its \<^verbatim>\<open><-r.closeChan\<close> case\<close>
  | Taken                                   \<comment> \<open>downstream receives from \<^verbatim>\<open>r.transactions\<close>\<close>
  | FinalRes response                       \<comment> \<open>line 238 receives from \<^verbatim>\<open>tmpRes\<close>\<close>
  | ResTaken                                \<comment> \<open>line 241: the original channel takes the response\<close>
  | WrappedWaited 'w "error option"         \<comment> \<open>\<^verbatim>\<open>r.wrapped.WaitForClose\<close> returns\<close>
  | CloseTransactions                       \<comment> \<open>line 179\<close>
  | CloseClosedChan                         \<comment> \<open>line 180\<close>
  | CompareAndSwap                          \<comment> \<open>a caller of CloseAsync executes line 264\<close>
  | CloseCloseChan                          \<comment> \<open>a caller of CloseAsync executes line 265\<close>
  | WaitForCloseCall wait_sel               \<comment> \<open>a call of WaitForClose returns\<close>

subsection \<open>The ReadUntil struct\<close>

text \<open>
  The fields \<open>running\<close> to \<open>closedChan\<close> are the fields of the Go struct; \<open>cond\<close> holds the
  state of the condition object, which may change when it is checked. \<open>at\<close> is the worker's
  control point, \<open>heap\<close> the first channel address not yet in use, \<open>closers\<close> the number of
  CloseAsync callers standing between line 264 and line 265, and \<open>panic\<close> records that a
  goroutine has panicked. The remaining fields are histories, written and never read by the
  program: the transactions received from the wrapped input, the payloads handed to the
  condition with its verdicts, the transactions delivered on \<^verbatim>\<open>r.transactions\<close>, the
  responses delivered by line 241 with their target channel, the configurations passed to
  \<^verbatim>\<open>New\<close> by line 191, and the inputs on which the deferred function called CloseAsync.
\<close>

record ('p, 'c, 'k, 'w, 'cs) ReadUntil =
  running :: int
  conf :: "('c, 'k) ReadUntilConfig"
  wrapped :: "'w option"
  cond :: 'cs
  transactions :: chan_state
  closeChan :: chan_state
  closedChan :: chan_state
  at :: "'p point"
  heap :: nat
  closers :: nat
  panic :: bool
  received :: "'p transaction list"
  checked :: "('p \<times> bool) list"
  sent :: "'p transaction list"
  relayed :: "(chan \<times> response) list"
  rebuilt :: "'c list"
  wrapped_closing :: "'w list"

section \<open>Construction\<close>

text \<open>
  \<^verbatim>\<open>NewReadUntil\<close> (lines 126-165). The constructors \<^verbatim>\<open>New\<close> and \<^verbatim>\<open>condition.New\<close> live in
  other packages and are parameters. The worker is started at the loop head.
\<close>

definition NewReadUntil ::
  "('c \<Rightarrow> string + 'w) \<Rightarrow> ('k \<Rightarrow> string + 'cs) \<Rightarrow> ('c, 'k) ReadUntilConfig
     \<Rightarrow> error + ('p, 'c, 'k, 'w, 'cs) ReadUntil" where
  "NewReadUntil New condition_New c =
     (case Input c of
        None \<Rightarrow> Inl ErrNoChild
      | Some i \<Rightarrow>
          (case New i of
             Inl e \<Rightarrow> Inl (ErrCreateInput e)
           | Inr w \<Rightarrow>
               (case condition_New (Condition c) of
                  Inl e \<Rightarrow> Inl (ErrCreateCondition e)
                | Inr cs \<Rightarrow>
                    Inr \<lparr>running = 1, conf = c, wrapped = Some w, cond = cs,
                         transactions = Open, closeChan = Open, closedChan = Open,
                         at = LoopHead, heap = 0, closers = 0, panic = False,
                         received = [], checked = [], sent = [], relayed = [],
                         rebuilt = [], wrapped_closing = []\<rparr>)))"

section \<open>The worker\<close>

text \<open>
  Every \<^verbatim>\<open>return\<close> of \<^verbatim>\<open>loop\<close>, and the end of the loop, enters the deferred function
  (lines 170-181). Its first statements do not wait: with a wrapped input present it calls
  the input's CloseAsync and then stands in the WaitForClose loop.
\<close>

definition exit_loop :: "('p, 'c, 'k, 'w, 'cs) ReadUntil \<Rightarrow> ('p, 'c, 'k, 'w, 'cs) ReadUntil" where
  "exit_loop r =
     (case wrapped r of
        None \<Rightarrow> r\<lparr>at := CloseOutput\<rparr>
      | Some w \<Rightarrow> r\<lparr>wrapped_closing := wrapped_closing r @ [w], at := WaitWrapped\<rparr>)"

text \<open>A select case \<^verbatim>\<open><-r.closeChan\<close> can be taken only once the channel is closed.\<close>

definition on_close :: "('p, 'c, 'k, 'w, 'cs) ReadUntil \<Rightarrow> ('p, 'c, 'k, 'w, 'cs) ReadUntil option" where
  "on_close r = (if closeChan r = Closed then Some (exit_loop r) else None)"

text \<open>
  One step of the worker. \<open>Check\<close> is \<^verbatim>\<open>r.cond.Check\<close>: it takes the condition's state and
  a payload and returns the verdict with the new state. An event that cannot happen at the
  worker's control point gives \<open>None\<close>.
\<close>

definition worker ::
  "('cs \<Rightarrow> 'p \<Rightarrow> bool \<times> 'cs) \<Rightarrow> ('p, 'c, 'k, 'w, 'cs) ReadUntil \<Rightarrow> ('p, 'w) event
     \<Rightarrow> ('p, 'c, 'k, 'w, 'cs) ReadUntil option" where
  "worker Check r e =
     (case at r of
        LoopHead \<Rightarrow>
          (case e of
             LoopGuard \<Rightarrow>
               Some (if running r = 1 then
                       (case wrapped r of
                          None \<Rightarrow> if Restart (conf r) then r\<lparr>at := Restarting\<rparr> else exit_loop r
                        | Some w \<Rightarrow> r\<lparr>at := AwaitTran\<rparr>)
                     else exit_loop r)
           | _ \<Rightarrow> None)
      | Restarting \<Rightarrow>
          (case e of
             Constructed res \<Rightarrow>
               (case Input (conf r) of
                  None \<Rightarrow> Some (exit_loop (r\<lparr>panic := True\<rparr>))
                | Some i \<Rightarrow>
                    (case res of
                       Inl err \<Rightarrow> Some (exit_loop (r\<lparr>wrapped := None, rebuilt := rebuilt r @ [i]\<rparr>))
                     | Inr w \<Rightarrow>
                         Some (r\<lparr>wrapped := Some w, rebuilt := rebuilt r @ [i], at := AwaitTran\<rparr>)))
           | _ \<Rightarrow> None)
      | AwaitTran \<Rightarrow>
          (case e of
             FromWrapped w tran \<Rightarrow>
               (if wrapped r \<noteq> Some w then None
                else
                  let (accept, cs) = Check (cond r) (Payload tran);
                      r1 = r\<lparr>cond := cs, heap := max (heap r) (Suc (ResponseChan tran)),
                             received := received r @ [tran],
                             checked := checked r @ [(Payload tran, accept)]\<rparr>
                  in if \<not> accept then Some (r1\<lparr>at := Forwarding tran\<rparr>)
                     else Some (r1\<lparr>at := ForwardingFinal tran (heap r1), heap := Suc (heap r1)\<rparr>))
           | WrappedClosed w \<Rightarrow>
               (if wrapped r \<noteq> Some w then None else Some (r\<lparr>wrapped := None, at := LoopHead\<rparr>))
           | CloseSignal \<Rightarrow> on_close r
           | _ \<Rightarrow> None)
      | Forwarding tran \<Rightarrow>
          (case e of
             Taken \<Rightarrow> Some (r\<lparr>sent := sent r @ [tran], at := LoopHead\<rparr>)
           | CloseSignal \<Rightarrow> on_close r
           | _ \<Rightarrow> None)
      | ForwardingFinal tran tmpRes \<Rightarrow>
          (case e of
             Taken \<Rightarrow>
               Some (r\<lparr>sent := sent r @ [NewTransaction (Payload tran) tmpRes],
                       at := AwaitRes tran tmpRes\<rparr>)
           | CloseSignal \<Rightarrow> on_close r
           | _ \<Rightarrow> None)
      | AwaitRes tran tmpRes \<Rightarrow>
          (case e of
             FinalRes res \<Rightarrow> Some (r\<lparr>at := Relaying tran res\<rparr>)
           | CloseSignal \<Rightarrow> on_close r
           | _ \<Rightarrow> None)
      | Relaying tran res \<Rightarrow>
          (case e of
             ResTaken \<Rightarrow>
               (let streamEnds = (Error res = None);
                    r1 = r\<lparr>relayed := relayed r @ [(ResponseChan tran, res)]\<rparr>
                in if streamEnds then Some (exit_loop r1) else Some (r1\<lparr>at := LoopHead\<rparr>))
           | CloseSignal \<Rightarrow> on_close r
           | _ \<Rightarrow> None)
      | WaitWrapped \<Rightarrow>
          (case e of
             WrappedWaited w err \<Rightarrow>
               (if wrapped r \<noteq> Some w then None
                else if err \<noteq> None then Some r else Some (r\<lparr>at := CloseOutput\<rparr>))
           | _ \<Rightarrow> None)
      | CloseOutput \<Rightarrow>
          (case e of
             CloseTransactions \<Rightarrow>
               (case transactions r of
                  Open \<Rightarrow> Some (r\<lparr>transactions := Closed, at := Confirm\<rparr>)
                | Closed \<Rightarrow> Some (r\<lparr>panic := True\<rparr>))
           | _ \<Rightarrow> None)
      | Confirm \<Rightarrow>
          (case e of
             CloseClosedChan \<Rightarrow>
               (case closedChan r of
                  Open \<Rightarrow> Some (r\<lparr>closedChan := Closed, at := Finished\<rparr>)
                | Closed \<Rightarrow> Some (r\<lparr>panic := True\<rparr>))
           | _ \<Rightarrow> None)
      | Finished \<Rightarrow> None)"

section \<open>CloseAsync and WaitForClose\<close>

text \<open>
  \<^verbatim>\<open>atomic.CompareAndSwapInt32(&r.running, 1, 0)\<close> and \<^verbatim>\<open>close(r.closeChan)\<close>; closing a
  closed channel panics.
\<close>

definition cas_running :: "('p, 'c, 'k, 'w, 'cs) ReadUntil \<Rightarrow> bool \<times> ('p, 'c, 'k, 'w, 'cs) ReadUntil" where
  "cas_running r = (if running r = 1 then (True, r\<lparr>running := 0\<rparr>) else (False, r))"

definition close_closeChan :: "('p, 'c, 'k, 'w, 'cs) ReadUntil \<Rightarrow> ('p, 'c, 'k, 'w, 'cs) ReadUntil" where
  "close_closeChan r =
     (case closeChan r of Open \<Rightarrow> r\<lparr>closeChan := Closed\<rparr> | Closed \<Rightarrow> r\<lparr>panic := True\<rparr>)"

text \<open>CloseAsync (lines 263-267), run by one caller without interruption.\<close>

definition CloseAsync :: "('p, 'c, 'k, 'w, 'cs) ReadUntil \<Rightarrow> ('p, 'c, 'k, 'w, 'cs) ReadUntil" where
  "CloseAsync r = (let (swapped, r1) = cas_running r in if swapped then close_closeChan r1 else r1)"

text \<open>
  WaitForClose (lines 270-277). The argument says which case the select takes: the receive
  from \<^verbatim>\<open>r.closedChan\<close>, possible only once that channel is closed, or the timer. The call
  returns nil (\<open>None\<close>) or \<^verbatim>\<open>types.ErrTimeout\<close>; the outer \<open>None\<close> means that the case
  cannot be taken. The struct is only read.
\<close>

definition WaitForClose :: "('p, 'c, 'k, 'w, 'cs) ReadUntil \<Rightarrow> wait_sel \<Rightarrow> error option option" where
  "WaitForClose r sel =
     (case sel of
        ClosedChanReady \<Rightarrow> if closedChan r = Closed then Some None else None
      | TimerFired \<Rightarrow> Some (Some ErrTimeout))"

section \<open>The whole system\<close>

text \<open>
  One step of the system: a caller of CloseAsync executes one of its two statements, a call
  of WaitForClose returns, or the worker moves.
\<close>

definition step ::
  "('cs \<Rightarrow> 'p \<Rightarrow> bool \<times> 'cs) \<Rightarrow> ('p, 'c, 'k, 'w, 'cs) ReadUntil \<Rightarrow> ('p, 'w) event
     \<Rightarrow> ('p, 'c, 'k, 'w, 'cs) ReadUntil option" where
  "step Check r e =
     (case e of
        CompareAndSwap \<Rightarrow>
          (let (swapped, r1) = cas_running r
           in Some (if swapped then r1\<lparr>closers := Suc (closers r1)\<rparr> else r1))
      | CloseCloseChan \<Rightarrow>
          (if closers r = 0 then None else Some (close_closeChan (r\<lparr>closers := closers r - 1\<rparr>)))
      | WaitForCloseCall sel \<Rightarrow> (case WaitForClose r sel of None \<Rightarrow> None | Some res \<Rightarrow> Some r)
      | _ \<Rightarrow> worker Check r e)"

fun run ::
  "('cs \<Rightarrow> 'p \<Rightarrow> bool \<times> 'cs) \<Rightarrow> ('p, 'c, 'k, 'w, 'cs) ReadUntil \<Rightarrow> ('p, 'w) event list
     \<Rightarrow> ('p, 'c, 'k, 'w, 'cs) ReadUntil option" where
  "run Check r [] = Some r"
| "run Check r (e # es) = (case step Check r e of None \<Rightarrow> None | Some r1 \<Rightarrow> run Check r1 es)"

section \<open>Notions used to state the properties\<close>

text \<open>The control points at which the worker stands in a select with a \<^verbatim>\<open><-r.closeChan\<close> case.\<close>

fun selecting :: "'p point \<Rightarrow> bool" where
  "selecting AwaitTran = True"
| "selecting (Forwarding t) = True"
| "selecting (ForwardingFinal t c) = True"
| "selecting (AwaitRes t c) = True"
| "selecting (Relaying t res) = True"
| "selecting _ = False"


text \<open>The control points inside the deferred function, and after it.\<close>

fun cleaning :: "'p point \<Rightarrow> bool" where
  "cleaning WaitWrapped = True"
| "cleaning CloseOutput = True"
| "cleaning Confirm = True"
| "cleaning Finished = True"
| "cleaning _ = False"

text \<open>The transactions that the wrapped inputs hand over in a sequence of events.\<close>

fun arrivals :: "('p, 'w) event list \<Rightarrow> 'p transaction list" where
  "arrivals [] = []"
| "arrivals (FromWrapped w tran # es) = tran # arrivals es"
| "arrivals (e # es) = arrivals es"

text \<open>
  Checking a list of payloads one after the other, once each: the payloads with the
  verdicts, and the state in which the condition is left.
\<close>

fun check_each :: "('cs \<Rightarrow> 'p \<Rightarrow> bool \<times> 'cs) \<Rightarrow> 'cs \<Rightarrow> 'p list \<Rightarrow> ('p \<times> bool) list \<times> 'cs" where
  "check_each Check cs [] = ([], cs)"
| "check_each Check cs (p # ps) =
     (let (accept, cs1) = Check cs p; (vs, cs2) = check_each Check cs1 ps
      in ((p, accept) # vs, cs2))"

text \<open>
  What holds of the flags and channels of the struct in every state the system reaches: no
  goroutine has panicked, the stored configuration has a wrapped input, the confirmation
  channel is closed exactly after line 180 and the output channel exactly after line 179,
  and \<^verbatim>\<open>r.closeChan\<close> is open exactly as long as \<open>running\<close> is 1 or a caller of CloseAsync
  stands before line 265.
\<close>

definition lifecycle_ok :: "('p, 'c, 'k, 'w, 'cs) ReadUntil \<Rightarrow> bool" where
  "lifecycle_ok r \<longleftrightarrow>
     \<not> panic r \<and>
     Input (conf r) \<noteq> None \<and>
     (closedChan r = Closed \<longleftrightarrow> at r = Finished) \<and>
     (transactions r = Closed \<longleftrightarrow> at r = Confirm \<or> at r = Finished) \<and>
     (running r = 1 \<or> running r = 0) \<and>
     (running r = 1 \<longrightarrow> closers r = 0 \<and> closeChan r = Open) \<and>
     (running r = 0 \<longrightarrow> closers r \<le> 1 \<and> (closeChan r = Open \<longleftrightarrow> closers r = 1)) \<and>
     (selecting (at r) \<or> at r = WaitWrapped \<longrightarrow> wrapped r \<noteq> None) \<and>
     (at r = Restarting \<longrightarrow> wrapped r = None)"

section \<open>The scenarios of the test suite\<close>

text \<open>
  The tests wrap a file input over the lines foo, bar, baz with a condition that accepts
  the content bar. The wrapped input is instance 0; the condition has no state.
\<close>

definition content_equals :: "string \<Rightarrow> unit \<Rightarrow> string \<Rightarrow> bool \<times> unit" where
  "content_equals arg cs p = (p = arg, cs)"

definition file_conf :: "(string, string) ReadUntilConfig" where
  "file_conf = \<lparr>Input = Some ''file'', Restart = False, Condition = ''bar''\<rparr>"

definition file_start :: "(string, string, string, nat, unit) ReadUntil" where
  "file_start =
     \<lparr>running = 1, conf = file_conf, wrapped = Some 0, cond = (),
      transactions = Open, closeChan = Open, closedChan = Open,
      at = LoopHead, heap = 0, closers = 0, panic = False,
      received = [], checked = [], sent = [], relayed = [],
      rebuilt = [], wrapped_closing = []\<rparr>"

text \<open>
  \<^verbatim>\<open>testReadUntilBasic\<close>: foo is passed on, bar is the final candidate and is acknowledged,
  the wrapped input confirms its closure at the first wait.
\<close>

definition basic_events :: "(string, nat) event list" where
  "basic_events =
     [LoopGuard, FromWrapped 0 (NewTransaction ''foo'' 0), Taken,
      LoopGuard, FromWrapped 0 (NewTransaction ''bar'' 1), Taken,
      FinalRes (NewSimpleResponse None), ResTaken,
      WrappedWaited 0 None, CloseTransactions, CloseClosedChan]"

definition basic_final :: "(string, string, string, nat, unit) ReadUntil" where
  "basic_final =
     \<lparr>running = 1, conf = file_conf, wrapped = Some 0, cond = (),
      transactions = Closed, closeChan = Open, closedChan = Closed,
      at = Finished, heap = 3, closers = 0, panic = False,
      received = [NewTransaction ''foo'' 0, NewTransaction ''bar'' 1],
      checked = [(''foo'', False), (''bar'', True)],
      sent = [NewTransaction ''foo'' 0, NewTransaction ''bar'' 2],
      relayed = [(1, NewSimpleResponse None)],
      rebuilt = [], wrapped_closing = [0]\<rparr>"

text \<open>
  \<^verbatim>\<open>testReadUntilRetry\<close>: the first response to bar carries an error, the input delivers bar
  again, and the second response is an acknowledgement.
\<close>

definition retry_events :: "(string, nat) event list" where
  "retry_events =
     [LoopGuard, FromWrapped 0 (NewTransaction ''foo'' 0), Taken,
      LoopGuard, FromWrapped 0 (NewTransaction ''bar'' 1), Taken,
      FinalRes (NewSimpleResponse (Some ''failed'')), ResTaken,
      LoopGuard, FromWrapped 0 (NewTransaction ''bar'' 1), Taken,
      FinalRes (NewSimpleResponse None), ResTaken,
      WrappedWaited 0 None, CloseTransactions, CloseClosedChan]"

definition retry_final :: "(string, string, string, nat, unit) ReadUntil" where
  "retry_final =
     \<lparr>running = 1, conf = file_conf, wrapped = Some 0, cond = (),
      transactions = Closed, closeChan = Open, closedChan = Closed,
      at = Finished, heap = 4, closers = 0, panic = False,
      received = [NewTransaction ''foo'' 0, NewTransaction ''bar'' 1, NewTransaction ''bar'' 1],
      checked = [(''foo'', False), (''bar'', True), (''bar'', True)],
      sent = [NewTransaction ''foo'' 0, NewTransaction ''bar'' 2, NewTransaction ''bar'' 3],
      relayed = [(1, NewSimpleResponse (Some ''failed'')), (1, NewSimpleResponse None)],
      rebuilt = [], wrapped_closing = [0]\<rparr>"

text \<open>
  \<^verbatim>\<open>testReadUntilEarlyClose\<close>, with three callers of CloseAsync and two of WaitForClose: the
  first caller wins the compare-and-swap, the wrapped input needs two waits to confirm.
\<close>

definition early_close_events :: "(string, nat) event list" where
  "early_close_events =
     [LoopGuard, FromWrapped 0 (NewTransaction ''foo'' 0), Taken,
      CompareAndSwap, WaitForCloseCall TimerFired, CompareAndSwap, CloseCloseChan, CompareAndSwap,
      LoopGuard, WrappedWaited 0 (Some ErrTimeout), WrappedWaited 0 None,
      CloseTransactions, CloseClosedChan, WaitForCloseCall ClosedChanReady]"

definition early_close_final :: "(string, string, string, nat, unit) ReadUntil" where
  "early_close_final =
     \<lparr>running = 0, conf = file_conf, wrapped = Some 0, cond = (),
      transactions = Closed, closeChan = Closed, closedChan = Closed,
      at = Finished, heap = 1, closers = 0, panic = False,
      received = [NewTransaction ''foo'' 0], checked = [(''foo'', False)],
      sent = [NewTransaction ''foo'' 0], relayed = [],
      rebuilt = [], wrapped_closing = [0]\<rparr>"

text \<open>
  The number of executions of line 265 that can still happen: one for each caller of
  CloseAsync standing before it, and one more as long as the compare-and-swap can succeed.
\<close>

definition pending_closes :: "('p, 'c, 'k, 'w, 'cs) ReadUntil \<Rightarrow> nat" where
  "pending_closes r = closers r + (if running r = 1 then 1 else 0)"

text \<open>The state of \<^verbatim>\<open>testReadUntilBasic\<close> after foo, when the worker waits for bar.\<close>

definition basic_mid :: "(string, string, string, nat, unit) ReadUntil" where
  "basic_mid =
     file_start\<lparr>at := AwaitTran, heap := 1, received := [NewTransaction ''foo'' 0],
                checked := [(''foo'', False)], sent := [NewTransaction ''foo'' 0]\<rparr>"

text \<open>
  The states of \<^verbatim>\<open>testReadUntilRetry\<close> when the worker waits for the first response to bar,
  and when it waits for the next transaction after that response was an error.
\<close>

definition retry_mid :: "(string, string, string, nat, unit) ReadUntil" where
  "retry_mid =
     file_start\<lparr>at := AwaitRes (NewTransaction ''bar'' 1) 2, heap := 3,
                received := [NewTransaction ''foo'' 0, NewTransaction ''bar'' 1],
                checked := [(''foo'', False), (''bar'', True)],
                sent := [NewTransaction ''foo'' 0, NewTransaction ''bar'' 2]\<rparr>"

definition retry_again :: "(string, string, string, nat, unit) ReadUntil" where
  "retry_again =
     retry_mid\<lparr>at := AwaitTran, relayed := [(1, NewSimpleResponse (Some ''failed''))]\<rparr>"





text \<open>The control points at which the worker offers a transaction on \<^verbatim>\<open>r.transactions\<close>.\<close>

fun offering :: "'p point \<Rightarrow> bool" where
  "offering (Forwarding t) = True"
| "offering (ForwardingFinal t c) = True"
| "offering _ = False"

text \<open>
  Every channel the worker has seen lies below the next free address, so that the channel
  made at line 228 differs from all of them.
\<close>

definition chans_below :: "('p, 'c, 'k, 'w, 'cs) ReadUntil \<Rightarrow> bool" where
  "chans_below r \<longleftrightarrow>
     (\<forall>t \<in> set (received r) \<union> set (sent r). ResponseChan t < heap r) \<and>
     (\<forall>t. at r = Forwarding t \<longrightarrow> ResponseChan t < heap r) \<and>
     (\<forall>t c. at r = ForwardingFinal t c \<longrightarrow> c < heap r)"

section \<open>Runs with a cooperating environment\<close>

text \<open>
  The events of one transaction passing through the loop: the loop guard, the receive of
  line 206 from input \<open>w\<close>, and downstream taking what the worker offers.
\<close>

definition deliver :: "'w \<Rightarrow> 'p transaction \<Rightarrow> ('p, 'w) event list" where
  "deliver w tran = [LoopGuard, FromWrapped w tran, Taken]"

definition deliver_all :: "'w \<Rightarrow> 'p transaction list \<Rightarrow> ('p, 'w) event list" where
  "deliver_all w trs = concat (map (deliver w) trs)"

text \<open>
  The input hands over the transactions \<open>trs\<close>, downstream takes each, the input closes
  its channel, and the worker runs to its end.
\<close>

definition exhausted_events :: "'w \<Rightarrow> 'p transaction list \<Rightarrow> ('p, 'w) event list" where
  "exhausted_events w trs =
     deliver_all w trs @ [LoopGuard, WrappedClosed w, LoopGuard, CloseTransactions, CloseClosedChan]"

text \<open>
  The input hands over \<open>trs\<close> and then \<open>final\<close>, downstream takes each and answers the last
  one with \<open>res\<close>, the original response channel takes the relayed response, and the
  wrapped input confirms its closure at the first wait.
\<close>

definition accepted_events :: "'w \<Rightarrow> 'p transaction list \<Rightarrow> 'p transaction \<Rightarrow> response \<Rightarrow> ('p, 'w) event list" where
  "accepted_events w trs final res =
     deliver_all w trs @ deliver w final @
     [FinalRes res, ResTaken, WrappedWaited w None, CloseTransactions, CloseClosedChan]"

text \<open>The condition, checked on the payloads one after the other, accepts none of them.\<close>

definition all_rejected :: "('cs \<Rightarrow> 'p \<Rightarrow> bool \<times> 'cs) \<Rightarrow> 'cs \<Rightarrow> 'p list \<Rightarrow> bool" where
  "all_rejected Check cs ps \<longleftrightarrow> (\<forall>v \<in> set (fst (check_each Check cs ps)). \<not> snd v)"

text \<open>The struct after the transactions \<open>trs\<close> were received, rejected and passed on.\<close>

definition passed_on ::
  "('cs \<Rightarrow> 'p \<Rightarrow> bool \<times> 'cs) \<Rightarrow> 'p transaction list \<Rightarrow> ('p, 'c, 'k, 'w, 'cs) ReadUntil
     \<Rightarrow> ('p, 'c, 'k, 'w, 'cs) ReadUntil" where
  "passed_on Check trs r =
     r\<lparr>cond := snd (check_each Check (cond r) (map Payload trs)),
       heap := fold (\<lambda>t h. max h (Suc (ResponseChan t))) trs (heap r),
       received := received r @ trs,
       checked := checked r @ fst (check_each Check (cond r) (map Payload trs)),
       sent := sent r @ trs\<rparr>"

text \<open>The control points of the interception sequence (lines 228-253).\<close>

fun intercepting :: "'p point \<Rightarrow> bool" where
  "intercepting (ForwardingFinal t c) = True"
| "intercepting (AwaitRes t c) = True"
| "intercepting (Relaying t res) = True"
| "intercepting _ = False"

text \<open>
  The payloads sent downstream are the payloads received, in their order, except for the one
  transaction the worker may hold: it is the last one received while the worker offers it,
  and it can be missing for good only when a \<^verbatim>\<open><-r.closeChan\<close> case has ended the loop.
\<close>

definition in_order :: "('p, 'c, 'k, 'w, 'cs) ReadUntil \<Rightarrow> bool" where
  "in_order r \<longleftrightarrow>
     (\<forall>t. at r = Forwarding t \<longrightarrow>
        map Payload (received r) = map Payload (sent r) @ [Payload t]) \<and>
     (\<forall>t c. at r = ForwardingFinal t c \<longrightarrow>
        map Payload (received r) = map Payload (sent r) @ [Payload t]) \<and>
     (\<not> offering (at r) \<and> \<not> cleaning (at r) \<longrightarrow>
        map Payload (received r) = map Payload (sent r)) \<and>
     (cleaning (at r) \<longrightarrow>
        map Payload (received r) = map Payload (sent r) \<or>
        closeChan r = Closed \<and> (\<exists>p. map Payload (received r) = map Payload (sent r) @ [p]))"

text \<open>
  As long as every response to a final candidate is an acknowledgement, at most the last
  verdict of the condition is an accept, and none is while the worker is in the plain part
  of its loop.
\<close>

definition accept_is_last :: "('p, 'c, 'k, 'w, 'cs) ReadUntil \<Rightarrow> bool" where
  "accept_is_last r \<longleftrightarrow>
     (\<forall>t res. at r = Relaying t res \<longrightarrow> Error res = None) \<and>
     (\<forall>v \<in> set (butlast (checked r)). \<not> snd v) \<and>
     (\<not> intercepting (at r) \<and> \<not> cleaning (at r) \<longrightarrow> (\<forall>v \<in> set (checked r). \<not> snd v))"


text \<open>\<^verbatim>\<open>testReadUntilInputClose\<close>: the condition never holds and the file input closes after baz.\<close>

definition never_conf :: "(string, string) ReadUntilConfig" where
  "never_conf = \<lparr>Input = Some ''file'', Restart = False, Condition = ''this never resolves''\<rparr>"

definition never_start :: "(string, string, string, nat, unit) ReadUntil" where
  "never_start = file_start\<lparr>conf := never_conf\<rparr>"

definition file_lines :: "string transaction list" where
  "file_lines = [NewTransaction ''foo'' 0, NewTransaction ''bar'' 1, NewTransaction ''baz'' 2]"

definition input_close_final :: "(string, string, string, nat, unit) ReadUntil" where
  "input_close_final =
     never_start\<lparr>wrapped := None, transactions := Closed, closedChan := Closed,
                 at := Finished, heap := 3, received := file_lines,
                 checked := [(''foo'', False), (''bar'', False), (''baz'', False)],
                 sent := file_lines\<rparr>"

section \<open>Serialising the configuration\<close>

text \<open>
  \<^verbatim>\<open>MarshalJSON\<close> and \<^verbatim>\<open>MarshalYAML\<close> (lines 73-100) copy the configuration into a
  \<^verbatim>\<open>dummyReadUntilConfig\<close>, whose only fields are \<^verbatim>\<open>Input\<close> and \<^verbatim>\<open>Condition\<close> (here
  \<open>dummy_Input\<close> and \<open>dummy_Condition\<close>), and hand it to the serialisation library. A
  serialised document is represented by its tree. The field \<^verbatim>\<open>Input\<close> of the dummy has type
  \<^verbatim>\<open>interface{}\<close>: it holds the pointer of the configuration, nil or not, or the empty
  struct. The serialisers of the wrapped input's and the condition's configuration are
  parameters and may fail.
\<close>

datatype json = JNull | JBool bool | JNumber int | JString string | JArray "json list"
  | JObject "(string \<times> json) list"










section \<open>The steps of the system, event by event\<close>

lemma exit_loop_simps [simp]:
  "running (exit_loop r) = running r"
  "conf (exit_loop r) = conf r"
  "wrapped (exit_loop r) = wrapped r"
  "cond (exit_loop r) = cond r"
  "transactions (exit_loop r) = transactions r"
  "closeChan (exit_loop r) = closeChan r"
  "closedChan (exit_loop r) = closedChan r"
  "heap (exit_loop r) = heap r"
  "closers (exit_loop r) = closers r"
  "panic (exit_loop r) = panic r"
  "received (exit_loop r) = received r"
  "checked (exit_loop r) = checked r"
  "sent (exit_loop r) = sent r"
  "relayed (exit_loop r) = relayed r"
  "rebuilt (exit_loop r) = rebuilt r"
  "at (exit_loop r) = (if wrapped r = None then CloseOutput else WaitWrapped)"
  by (simp_all add: exit_loop_def split: option.splits)

lemma chan_state_neq [simp]:
  "(c \<noteq> Open) = (c = Closed)" "(c \<noteq> Closed) = (c = Open)"
  by (cases c; simp)+

lemma step_LoopGuard:
  "step Check r LoopGuard = Some r' \<longleftrightarrow>
     at r = LoopHead \<and>
     (running r = 1 \<and> wrapped r \<noteq> None \<and> r' = r\<lparr>at := AwaitTran\<rparr> \<or>
      running r = 1 \<and> wrapped r = None \<and> Restart (conf r) \<and> r' = r\<lparr>at := Restarting\<rparr> \<or>
      running r = 1 \<and> wrapped r = None \<and> \<not> Restart (conf r) \<and> r' = exit_loop r \<or>
      running r \<noteq> 1 \<and> r' = exit_loop r)"
  by (cases "at r"; cases "wrapped r") (auto simp: step_def worker_def)

lemma step_Constructed:
  "step Check r (Constructed res) = Some r' \<longleftrightarrow>
     at r = Restarting \<and>
     (Input (conf r) = None \<and> r' = exit_loop (r\<lparr>panic := True\<rparr>) \<or>
      (\<exists>i err. Input (conf r) = Some i \<and> res = Inl err \<and>
         r' = exit_loop (r\<lparr>wrapped := None, rebuilt := rebuilt r @ [i]\<rparr>)) \<or>
      (\<exists>i w. Input (conf r) = Some i \<and> res = Inr w \<and>
         r' = r\<lparr>wrapped := Some w, rebuilt := rebuilt r @ [i], at := AwaitTran\<rparr>))"
  by (cases "at r") (auto simp: step_def worker_def split: option.splits sum.splits)

lemma step_FromWrapped:
  "step Check r (FromWrapped w tran) = Some r' \<longleftrightarrow>
     at r = AwaitTran \<and> wrapped r = Some w \<and>
     (\<not> fst (Check (cond r) (Payload tran)) \<and>
        r' = r\<lparr>cond := snd (Check (cond r) (Payload tran)),
                heap := max (heap r) (Suc (ResponseChan tran)),
                received := received r @ [tran],
                checked := checked r @ [(Payload tran, False)],
                at := Forwarding tran\<rparr> \<or>
      fst (Check (cond r) (Payload tran)) \<and>
        r' = r\<lparr>cond := snd (Check (cond r) (Payload tran)),
                heap := Suc (max (heap r) (Suc (ResponseChan tran))),
                received := received r @ [tran],
                checked := checked r @ [(Payload tran, True)],
                at := ForwardingFinal tran (max (heap r) (Suc (ResponseChan tran)))\<rparr>)"
  by (cases "at r") (auto simp: step_def worker_def Let_def split: prod.splits)

lemma step_WrappedClosed:
  "step Check r (WrappedClosed w) = Some r' \<longleftrightarrow>
     at r = AwaitTran \<and> wrapped r = Some w \<and> r' = r\<lparr>wrapped := None, at := LoopHead\<rparr>"
  by (cases "at r") (auto simp: step_def worker_def)

lemma step_CloseSignal:
  "step Check r CloseSignal = Some r' \<longleftrightarrow>
     selecting (at r) \<and> closeChan r = Closed \<and> r' = exit_loop r"
  by (cases "at r") (auto simp: step_def worker_def on_close_def)

lemma step_Taken:
  "step Check r Taken = Some r' \<longleftrightarrow>
     (\<exists>tran. at r = Forwarding tran \<and> r' = r\<lparr>sent := sent r @ [tran], at := LoopHead\<rparr>) \<or>
     (\<exists>tran tmpRes. at r = ForwardingFinal tran tmpRes \<and>
        r' = r\<lparr>sent := sent r @ [NewTransaction (Payload tran) tmpRes], at := AwaitRes tran tmpRes\<rparr>)"
  by (cases "at r") (auto simp: step_def worker_def)

lemma step_FinalRes:
  "step Check r (FinalRes res) = Some r' \<longleftrightarrow>
     (\<exists>tran tmpRes. at r = AwaitRes tran tmpRes \<and> r' = r\<lparr>at := Relaying tran res\<rparr>)"
  by (cases "at r") (auto simp: step_def worker_def)

lemma step_ResTaken:
  "step Check r ResTaken = Some r' \<longleftrightarrow>
     (\<exists>tran res. at r = Relaying tran res \<and>
        (Error res = None \<and>
           r' = exit_loop (r\<lparr>relayed := relayed r @ [(ResponseChan tran, res)]\<rparr>) \<or>
         Error res \<noteq> None \<and>
           r' = r\<lparr>relayed := relayed r @ [(ResponseChan tran, res)], at := LoopHead\<rparr>))"
  by (cases "at r") (auto simp: step_def worker_def Let_def)

lemma step_WrappedWaited:
  "step Check r (WrappedWaited w err) = Some r' \<longleftrightarrow>
     at r = WaitWrapped \<and> wrapped r = Some w \<and>
     (err \<noteq> None \<and> r' = r \<or> err = None \<and> r' = r\<lparr>at := CloseOutput\<rparr>)"
  by (cases "at r") (auto simp: step_def worker_def)

lemma step_CloseTransactions:
  "step Check r CloseTransactions = Some r' \<longleftrightarrow>
     at r = CloseOutput \<and>
     (transactions r = Open \<and> r' = r\<lparr>transactions := Closed, at := Confirm\<rparr> \<or>
      transactions r = Closed \<and> r' = r\<lparr>panic := True\<rparr>)"
  by (cases "at r"; cases "transactions r") (auto simp: step_def worker_def)

lemma step_CloseClosedChan:
  "step Check r CloseClosedChan = Some r' \<longleftrightarrow>
     at r = Confirm \<and>
     (closedChan r = Open \<and> r' = r\<lparr>closedChan := Closed, at := Finished\<rparr> \<or>
      closedChan r = Closed \<and> r' = r\<lparr>panic := True\<rparr>)"
  by (cases "at r"; cases "closedChan r") (auto simp: step_def worker_def)

lemma step_CompareAndSwap:
  "step Check r CompareAndSwap = Some r' \<longleftrightarrow>
     (running r = 1 \<and> r' = r\<lparr>running := 0, closers := Suc (closers r)\<rparr> \<or>
      running r \<noteq> 1 \<and> r' = r)"
  by (auto simp: step_def cas_running_def)

lemma step_CloseCloseChan:
  "step Check r CloseCloseChan = Some r' \<longleftrightarrow>
     closers r \<noteq> 0 \<and>
     (closeChan r = Open \<and> r' = r\<lparr>closers := closers r - 1, closeChan := Closed\<rparr> \<or>
      closeChan r = Closed \<and> r' = r\<lparr>closers := closers r - 1, panic := True\<rparr>)"
  by (cases "closeChan r") (auto simp: step_def close_closeChan_def)

lemma step_WaitForCloseCall:
  "step Check r (WaitForCloseCall sel) = Some r' \<longleftrightarrow>
     (sel = ClosedChanReady \<longrightarrow> closedChan r = Closed) \<and> r' = r"
  by (cases sel) (auto simp: step_def WaitForClose_def)

lemmas step_iff = step_LoopGuard step_Constructed step_FromWrapped step_WrappedClosed
  step_CloseSignal step_Taken step_FinalRes step_ResTaken step_WrappedWaited
  step_CloseTransactions step_CloseClosedChan step_CompareAndSwap step_CloseCloseChan
  step_WaitForCloseCall


section \<open>Runs\<close>

lemma run_append:
  "run Check r (xs @ ys) = (case run Check r xs of None \<Rightarrow> None | Some r1 \<Rightarrow> run Check r1 ys)"
  by (induction xs arbitrary: r) (simp_all split: option.splits)

lemma run_invariant:
  assumes "\<And>r e r'. P r \<Longrightarrow> step Check r e = Some r' \<Longrightarrow> P r'"
    and "P r" and "run Check r evs = Some r'"
  shows "P r'"
  using assms(2,3)
proof (induction evs arbitrary: r)
  case Nil
  then show ?case by simp
next
  case (Cons e es)
  from Cons.prems(2) obtain r1 where s: "step Check r e = Some r1" and rest: "run Check r1 es = Some r'"
    by (auto split: option.splits)
  from assms(1) [OF Cons.prems(1) s] have "P r1" .
  from Cons.IH [OF this rest] show ?case .
qed

lemma NewReadUntil_Inr:
  "NewReadUntil New condition_New c = Inr r \<longleftrightarrow>
     (\<exists>i w cs. Input c = Some i \<and> New i = Inr w \<and> condition_New (Condition c) = Inr cs \<and>
        r = \<lparr>running = 1, conf = c, wrapped = Some w, cond = cs,
              transactions = Open, closeChan = Open, closedChan = Open,
              at = LoopHead, heap = 0, closers = 0, panic = False,
              received = [], checked = [], sent = [], relayed = [],
              rebuilt = [], wrapped_closing = []\<rparr>)"
  by (auto simp: NewReadUntil_def split: option.splits sum.splits)

lemma step_lifecycle_ok:
  "lifecycle_ok r \<Longrightarrow> step Check r e = Some r' \<Longrightarrow> lifecycle_ok r'"
  by (cases e; simp add: step_iff; (elim disjE exE conjE)?; auto simp: lifecycle_ok_def)

lemma NewReadUntil_lifecycle_ok:
  "NewReadUntil New condition_New c = Inr r \<Longrightarrow> lifecycle_ok r"
  by (auto simp: NewReadUntil_Inr lifecycle_ok_def)

lemma reachable_lifecycle_ok:
  assumes "NewReadUntil New condition_New c = Inr r0" and "run Check r0 evs = Some r"
  shows "lifecycle_ok r"
  using step_lifecycle_ok NewReadUntil_lifecycle_ok [OF assms(1)] assms(2)
  by (rule run_invariant)

section \<open>The test scenarios, evaluated\<close>

lemmas eval_defs = step_def worker_def exit_loop_def on_close_def cas_running_def
  close_closeChan_def WaitForClose_def

lemma file_start_built:
  "NewReadUntil (\<lambda>i. Inr 0) (\<lambda>k. Inr ()) file_conf = Inr file_start"
  by (simp add: NewReadUntil_def file_conf_def file_start_def)

lemma basic_run:
  "run (content_equals ''bar'') file_start basic_events = Some basic_final"
  by (simp add: eval_defs basic_events_def file_start_def basic_final_def content_equals_def)

section \<open>The order of the two closes of the deferred function\<close>

text \<open>
  Claim C10. In every state that the system reaches from a constructed ReadUntil, under any
  interleaving of the worker with its environment, the confirmation channel
  \<^verbatim>\<open>r.closedChan\<close> is closed only if the output channel \<^verbatim>\<open>r.transactions\<close> is closed
  already. Hence whenever WaitForClose returns nil the output channel is closed. While the
  worker is in its loop both channels are open, and inside the deferred function the
  confirmation channel stays open until the last step.
\<close>

theorem confirmed_only_after_output_closed:
  assumes "NewReadUntil New condition_New c = Inr r0" and "run Check r0 evs = Some r"
  shows "(closedChan r = Closed \<longrightarrow> transactions r = Closed) \<and>
         (WaitForClose r sel = Some None \<longrightarrow> transactions r = Closed) \<and>
         (at r = Finished \<longrightarrow> transactions r = Closed \<and> closedChan r = Closed) \<and>
         (cleaning (at r) \<and> at r \<noteq> Finished \<longrightarrow> closedChan r = Open) \<and>
         (\<not> cleaning (at r) \<longrightarrow> transactions r = Open \<and> closedChan r = Open)"
proof -
  have "lifecycle_ok r"
    using assms by (rule reachable_lifecycle_ok)
  then show ?thesis
    by (cases "at r"; cases sel) (auto simp: lifecycle_ok_def WaitForClose_def)
qed

theorem confirmed_only_after_output_closed_witness:
  "NewReadUntil (\<lambda>i. Inr 0) (\<lambda>k. Inr ()) file_conf = Inr file_start \<and>
   run (content_equals ''bar'') file_start basic_events = Some basic_final \<and>
   WaitForClose basic_final ClosedChanReady = Some None \<and>
   closedChan basic_final = Closed \<and> transactions basic_final = Closed"
  using confirmed_only_after_output_closed [OF file_start_built basic_run, of ClosedChanReady]
    file_start_built basic_run
  by (simp add: basic_final_def WaitForClose_def)

lemma retry_run:
  "run (content_equals ''bar'') file_start retry_events = Some retry_final"
  by (simp add: eval_defs retry_events_def file_start_def retry_final_def content_equals_def)

lemma early_close_run:
  "run (content_equals ''bar'') file_start early_close_events = Some early_close_final"
  by (simp add: eval_defs early_close_events_def file_start_def early_close_final_def
      content_equals_def)

section \<open>Evaluations of the condition\<close>

lemma check_each_Cons:
  "check_each Check cs (p # ps) =
     ((p, fst (Check cs p)) # fst (check_each Check (snd (Check cs p)) ps),
      snd (check_each Check (snd (Check cs p)) ps))"
  by (simp split: prod.splits)

lemma step_arrival:
  assumes "step Check r e = Some r'"
  shows "received r' = received r @ arrivals [e] \<and>
         checked r' = checked r @ fst (check_each Check (cond r) (map Payload (arrivals [e]))) \<and>
         cond r' = snd (check_each Check (cond r) (map Payload (arrivals [e])))"
  using assms
  by (cases e; simp add: step_iff check_each_Cons del: check_each.simps(2);
      (elim disjE exE conjE)?; simp)

lemma arrivals_Cons: "arrivals (e # es) = arrivals [e] @ arrivals es"
  by (cases e) simp_all

lemma check_each_append:
  "check_each Check cs (xs @ ys) =
     (fst (check_each Check cs xs) @ fst (check_each Check (snd (check_each Check cs xs)) ys),
      snd (check_each Check (snd (check_each Check cs xs)) ys))"
  by (induction xs arbitrary: cs) (simp_all add: check_each_Cons del: check_each.simps(2))

lemma run_arrivals:
  "run Check r evs = Some r' \<Longrightarrow>
     received r' = received r @ arrivals evs \<and>
     checked r' = checked r @ fst (check_each Check (cond r) (map Payload (arrivals evs))) \<and>
     cond r' = snd (check_each Check (cond r) (map Payload (arrivals evs)))"
proof (induction evs arbitrary: r)
  case Nil
  then show ?case by simp
next
  case (Cons e es)
  from Cons.prems obtain r1 where s: "step Check r e = Some r1" and rest: "run Check r1 es = Some r'"
    by (auto split: option.splits)
  note a = step_arrival [OF s] and b = Cons.IH [OF rest]
  have c: "arrivals (e # es) = arrivals [e] @ arrivals es"
    by (rule arrivals_Cons)
  show ?case
    unfolding c map_append check_each_append using a b by simp
qed


text \<open>
  Claim C8. In every run from a constructed ReadUntil, the transactions received are exactly
  those the wrapped inputs handed over, and the condition has been evaluated on the payload
  of each of them, once, in order: the history of evaluations and the condition's state are
  what checking these payloads one after the other gives. No event other than the arrival
  of a transaction from the wrapped input evaluates the condition; in particular not the
  delivery of the rebuilt transaction, its response, or the relay of that response.
\<close>


theorem condition_checked_once_per_arrival:
  assumes "NewReadUntil New condition_New c = Inr r0" and "run Check r0 evs = Some r"
  shows "received r = arrivals evs \<and>
         (checked r, cond r) = check_each Check (cond r0) (map Payload (arrivals evs)) \<and>
         map fst (checked r) = map Payload (received r) \<and>
         (\<forall>e r'. step Check r e = Some r' \<and> arrivals [e] = [] \<longrightarrow>
            checked r' = checked r \<and> cond r' = cond r)"
proof -
  from assms(1) have init: "received r0 = []" "checked r0 = []"
    by (auto simp: NewReadUntil_Inr)
  have fsts: "map fst (fst (check_each Check cs ps)) = ps" for cs ps
    by (induction ps arbitrary: cs) (simp_all add: check_each_Cons del: check_each.simps(2))
  from run_arrivals [OF assms(2)] init
  have 1: "received r = arrivals evs"
    and 2: "checked r = fst (check_each Check (cond r0) (map Payload (arrivals evs)))"
    and 3: "cond r = snd (check_each Check (cond r0) (map Payload (arrivals evs)))"
    by simp_all
  have 4: "\<forall>e r'. step Check r e = Some r' \<and> arrivals [e] = [] \<longrightarrow>
            checked r' = checked r \<and> cond r' = cond r"
  proof (intro allI impI, elim conjE)
    fix e r'
    assume "step Check r e = Some r'" and "arrivals [e] = []"
    then show "checked r' = checked r \<and> cond r' = cond r"
      using step_arrival [of Check r e r'] by simp
  qed
  have 5: "(checked r, cond r) = check_each Check (cond r0) (map Payload (arrivals evs))"
    using 2 3 by simp
  have 6: "map fst (checked r) = map Payload (received r)"
    using 1 2 by (simp add: fsts)
  from 1 5 6 4 show ?thesis
    by (intro conjI)
qed


theorem condition_checked_once_per_arrival_witness:
  "NewReadUntil (\<lambda>i. Inr 0) (\<lambda>k. Inr ()) file_conf = Inr file_start \<and>
   run (content_equals ''bar'') file_start retry_events = Some retry_final \<and>
   received retry_final = arrivals retry_events \<and>
   (checked retry_final, cond retry_final) =
     check_each (content_equals ''bar'') () [''foo'', ''bar'', ''bar''] \<and>
   length (checked retry_final) = 3 \<and> length (sent retry_final) = 3 \<and>
   step (content_equals ''bar'') retry_final (WaitForCloseCall TimerFired) = Some retry_final \<and>
   arrivals [WaitForCloseCall TimerFired :: (string, nat) event] = []"
  using condition_checked_once_per_arrival [OF file_start_built retry_run]
    file_start_built retry_run
  by (simp add: retry_events_def retry_final_def file_start_def step_iff)

section \<open>CloseAsync\<close>

lemma step_closes:
  assumes "lifecycle_ok r" and "step Check r e = Some r'"
  shows "pending_closes r' + count_list [e] CloseCloseChan = pending_closes r \<and>
         (closeChan r' = Closed \<longleftrightarrow> closeChan r = Closed \<or> e = CloseCloseChan) \<and>
         (running r' = 1 \<longleftrightarrow> running r = 1 \<and> e \<noteq> CompareAndSwap)"
  using assms
  by (cases e; simp add: step_iff; (elim disjE exE conjE)?; auto simp: lifecycle_ok_def pending_closes_def)

lemma run_closes:
  "lifecycle_ok r \<Longrightarrow> run Check r evs = Some r' \<Longrightarrow>
     pending_closes r' + count_list evs CloseCloseChan = pending_closes r \<and>
     (closeChan r' = Closed \<longleftrightarrow> closeChan r = Closed \<or> CloseCloseChan \<in> set evs) \<and>
     (running r' = 1 \<longleftrightarrow> running r = 1 \<and> CompareAndSwap \<notin> set evs)"
proof (induction evs arbitrary: r)
  case Nil
  then show ?case by simp
next
  case (Cons e es)
  from Cons.prems(2) obtain r1 where s: "step Check r e = Some r1" and rest: "run Check r1 es = Some r'"
    by (auto split: option.splits)
  have ok1: "lifecycle_ok r1"
    using Cons.prems(1) s by (rule step_lifecycle_ok)
  note a = step_closes [OF Cons.prems(1) s] and b = Cons.IH [OF ok1 rest]
  show ?case
    using a b by (cases "e = CloseCloseChan") auto
qed

lemma CloseAsync_idem: "CloseAsync (CloseAsync r) = CloseAsync r"
  by (cases "closeChan r") (simp_all add: CloseAsync_def cas_running_def close_closeChan_def)


text \<open>
  Claim C6. In every run from a constructed ReadUntil, with any number of callers of
  CloseAsync interleaved in any way with each other and with the worker: line 265 is
  executed at most once and never on a closed channel (no panic); \<open>running\<close> is 1 exactly
  until the first compare-and-swap and 0 ever after; \<^verbatim>\<open>r.closeChan\<close> is closed exactly when
  line 265 has been executed. After the first compare-and-swap every further one, and every
  further whole call of CloseAsync, leaves the struct as it is; before it, a call of
  CloseAsync sets \<open>running\<close> to 0 and closes \<^verbatim>\<open>r.closeChan\<close>. Calling CloseAsync twice is
  the same as calling it once.
\<close>


theorem CloseAsync_takes_effect_once:
  assumes "NewReadUntil New condition_New c = Inr r0" and "run Check r0 evs = Some r"
  shows "count_list evs CloseCloseChan \<le> 1 \<and>
         \<not> panic r \<and>
         (running r = 1 \<or> running r = 0) \<and>
         (running r = 1 \<longleftrightarrow> CompareAndSwap \<notin> set evs) \<and>
         (closeChan r = Closed \<longleftrightarrow> CloseCloseChan \<in> set evs) \<and>
         (CompareAndSwap \<in> set evs \<longrightarrow> step Check r CompareAndSwap = Some r \<and> CloseAsync r = r) \<and>
         (CompareAndSwap \<notin> set evs \<longrightarrow>
            CloseAsync r = r\<lparr>running := 0, closeChan := Closed\<rparr>) \<and>
         CloseAsync (CloseAsync r) = CloseAsync r"
proof -
  have ok0: "lifecycle_ok r0"
    using assms(1) by (rule NewReadUntil_lifecycle_ok)
  have ok: "lifecycle_ok r"
    using assms by (rule reachable_lifecycle_ok)
  from assms(1) have init: "pending_closes r0 = 1" "closeChan r0 = Open" "running r0 = 1"
    by (auto simp: NewReadUntil_Inr pending_closes_def)
  from run_closes [OF ok0 assms(2)] init
  have 1: "pending_closes r + count_list evs CloseCloseChan = 1"
    and 2: "closeChan r = Closed \<longleftrightarrow> CloseCloseChan \<in> set evs"
    and 3: "running r = 1 \<longleftrightarrow> CompareAndSwap \<notin> set evs"
    by simp_all
  from 1 have 4: "count_list evs CloseCloseChan \<le> 1"
    by arith
  from ok have 5: "\<not> panic r" "running r = 1 \<or> running r = 0"
    by (simp_all add: lifecycle_ok_def)
  have 6: "step Check r CompareAndSwap = Some r \<and> CloseAsync r = r" if "CompareAndSwap \<in> set evs"
    using that 3 by (simp add: step_iff CloseAsync_def cas_running_def)
  have 7: "CloseAsync r = r\<lparr>running := 0, closeChan := Closed\<rparr>" if "CompareAndSwap \<notin> set evs"
    using that 3 ok by (simp add: CloseAsync_def cas_running_def close_closeChan_def lifecycle_ok_def)
  show ?thesis
    using 2 3 4 5 6 7 CloseAsync_idem by blast
qed


theorem CloseAsync_takes_effect_once_witness:
  "NewReadUntil (\<lambda>i. Inr 0) (\<lambda>k. Inr ()) file_conf = Inr file_start \<and>
   run (content_equals ''bar'') file_start early_close_events = Some early_close_final \<and>
   count_list early_close_events CloseCloseChan = 1 \<and>
   count_list early_close_events CompareAndSwap = 3 \<and>
   running early_close_final = 0 \<and> closeChan early_close_final = Closed \<and>
   step (content_equals ''bar'') early_close_final CompareAndSwap = Some early_close_final \<and>
   CloseAsync early_close_final = early_close_final \<and>
   run (content_equals ''bar'') file_start [] = Some file_start \<and>
   CloseAsync file_start = file_start\<lparr>running := 0, closeChan := Closed\<rparr>"
proof -
  have fields: "running early_close_final = 0" "closeChan early_close_final = Closed"
    by (simp_all add: early_close_final_def)
  have counts: "count_list early_close_events CloseCloseChan = 1"
    "count_list early_close_events CompareAndSwap = 3"
    "CompareAndSwap \<in> set early_close_events"
    by (simp_all add: early_close_events_def)
  have empty: "run (content_equals ''bar'') file_start [] = Some file_start"
    by simp
  from CloseAsync_takes_effect_once [OF file_start_built early_close_run] counts(3)
  have later: "step (content_equals ''bar'') early_close_final CompareAndSwap = Some early_close_final"
    "CloseAsync early_close_final = early_close_final"
    by simp_all
  from CloseAsync_takes_effect_once [OF file_start_built empty]
  have first: "CloseAsync file_start = file_start\<lparr>running := 0, closeChan := Closed\<rparr>"
    by simp
  show ?thesis
    using file_start_built early_close_run fields counts empty later first by simp
qed

section \<open>WaitForClose\<close>









section \<open>The interception of the final candidate\<close>

lemma step_chans_below:
  "chans_below r \<Longrightarrow> step Check r e = Some r' \<Longrightarrow> chans_below r'"
  by (cases e; simp add: step_iff; (elim disjE exE conjE)?;
      auto simp: chans_below_def less_max_iff_disj less_Suc_eq)

lemma reachable_chans_below:
  assumes "NewReadUntil New condition_New c = Inr r0" and "run Check r0 evs = Some r"
  shows "chans_below r"
proof -
  have "chans_below r0"
    using assms(1) by (auto simp: NewReadUntil_Inr chans_below_def)
  with step_chans_below show ?thesis
    using assms(2) by (rule run_invariant)
qed



lemma step_cleaning:
  assumes "cleaning (at r)" and "step Check r e = Some r'"
  shows "cleaning (at r') \<and> received r' = received r \<and> sent r' = sent r \<and>
         relayed r' = relayed r \<and> checked r' = checked r \<and> rebuilt r' = rebuilt r"
  using assms
  by (cases e; simp add: step_iff; (elim disjE exE conjE)?; auto)

lemma run_cleaning:
  assumes "cleaning (at r)" and "run Check r evs = Some r'"
  shows "cleaning (at r') \<and> received r' = received r \<and> sent r' = sent r \<and>
         relayed r' = relayed r \<and> checked r' = checked r \<and> rebuilt r' = rebuilt r"
proof -
  let ?P = "\<lambda>x. cleaning (at x) \<and> received x = received r \<and> sent x = sent r \<and>
         relayed x = relayed r \<and> checked x = checked r \<and> rebuilt x = rebuilt r"
  have "?P x'" if "?P x" "step Check x e = Some x'" for x e x'
    using step_cleaning [OF _ that(2)] that(1) by simp
  moreover have "?P r"
    using assms(1) by simp
  ultimately show ?thesis
    using assms(2) by (rule run_invariant [where P = ?P])
qed

lemma step_relaying:
  assumes "at r = Relaying tran res" and "Error res = None" and "step Check r e = Some r'"
  shows "received r' = received r \<and> sent r' = sent r \<and> checked r' = checked r \<and>
         rebuilt r' = rebuilt r \<and>
         (at r' = Relaying tran res \<and> relayed r' = relayed r \<or>
          cleaning (at r') \<and> relayed r' = relayed r @ [(ResponseChan tran, res)] \<or>
          cleaning (at r') \<and> relayed r' = relayed r)"
  using assms
  apply (cases e)
  apply (simp_all add: step_iff)
  apply ((elim disjE exE conjE)?; simp)+
  done

lemma step_relaying_unsignalled:
  assumes "at r = Relaying tran res" and "Error res = None" and "step Check r e = Some r'"
    and "e \<noteq> CloseSignal"
  shows "at r' = Relaying tran res \<and> relayed r' = relayed r \<or>
         cleaning (at r') \<and> relayed r' = relayed r @ [(ResponseChan tran, res)]"
  using assms
  apply (cases e)
  apply (simp_all add: step_iff)
  apply ((elim disjE exE conjE)?; simp)+
  done

lemma run_relaying:
  "at r = Relaying tran res \<Longrightarrow> Error res = None \<Longrightarrow> run Check r evs = Some r' \<Longrightarrow>
     received r' = received r \<and> sent r' = sent r \<and> checked r' = checked r \<and>
     rebuilt r' = rebuilt r \<and>
     (at r' = Relaying tran res \<or> cleaning (at r')) \<and>
     (relayed r' = relayed r \<or> relayed r' = relayed r @ [(ResponseChan tran, res)]) \<and>
     (cleaning (at r') \<and> CloseSignal \<notin> set evs \<longrightarrow>
        relayed r' = relayed r @ [(ResponseChan tran, res)])"
proof (induction evs arbitrary: r)
  case Nil
  then show ?case by auto
next
  case (Cons e es)
  from Cons.prems(3) obtain r1 where s: "step Check r e = Some r1" and rest: "run Check r1 es = Some r'"
    by (auto split: option.splits)
  note a = step_relaying [OF Cons.prems(1,2) s]
  show ?case
  proof (cases "cleaning (at r1)")
    case True
    note b = run_cleaning [OF True rest]
    have "relayed r1 = relayed r @ [(ResponseChan tran, res)]" if "e \<noteq> CloseSignal"
      using step_relaying_unsignalled [OF Cons.prems(1,2) s that] True by auto
    with a b show ?thesis
      by auto
  next
    case False
    with a have at1: "at r1 = Relaying tran res" and same: "relayed r1 = relayed r"
      by auto
    from Cons.IH [OF at1 Cons.prems(2) rest] a same show ?thesis
      by auto
  qed
qed

lemma step_no_arrival:
  assumes "\<not> offering (at r)" and "step Check r e = Some r'" and "arrivals [e] = []"
  shows "sent r' = sent r \<and> \<not> offering (at r')"
  using assms
  by (cases e; simp add: step_iff; (elim disjE exE conjE)?; auto split: option.splits)

lemma run_no_arrival:
  "\<not> offering (at r) \<Longrightarrow> run Check r evs = Some r' \<Longrightarrow> arrivals evs = [] \<Longrightarrow>
     sent r' = sent r \<and> \<not> offering (at r')"
proof (induction evs arbitrary: r)
  case Nil
  then show ?case by simp
next
  case (Cons e es)
  from Cons.prems(2) obtain r1 where s: "step Check r e = Some r1" and rest: "run Check r1 es = Some r'"
    by (auto split: option.splits)
  from Cons.prems(3) have e: "arrivals [e] = []" and es: "arrivals es = []"
    by (cases e; simp)+
  from step_no_arrival [OF Cons.prems(1) s e] Cons.IH [OF _ rest es] show ?case
    by simp
qed


lemma basic_mid_run:
  "run (content_equals ''bar'') file_start
     [LoopGuard, FromWrapped 0 (NewTransaction ''foo'' 0), Taken, LoopGuard] = Some basic_mid"
  by (simp add: eval_defs file_start_def basic_mid_def content_equals_def)

lemma basic_rest_run:
  "run (content_equals ''bar'') basic_mid
     [FromWrapped 0 (NewTransaction ''bar'' 1), Taken, FinalRes (NewSimpleResponse None),
      ResTaken, WrappedWaited 0 None, CloseTransactions, CloseClosedChan] = Some basic_final"
  by (simp add: eval_defs file_start_def basic_mid_def basic_final_def content_equals_def)

lemma retry_mid_run:
  "run (content_equals ''bar'') file_start
     [LoopGuard, FromWrapped 0 (NewTransaction ''foo'' 0), Taken,
      LoopGuard, FromWrapped 0 (NewTransaction ''bar'' 1), Taken] = Some retry_mid"
  by (simp add: eval_defs file_start_def retry_mid_def content_equals_def)

lemma retry_again_run:
  "run (content_equals ''bar'') retry_mid
     [FinalRes (NewSimpleResponse (Some ''failed'')), ResTaken, LoopGuard] = Some retry_again"
  by (simp add: eval_defs file_start_def retry_mid_def retry_again_def)




text \<open>
  Claim C1. Let the worker of a constructed ReadUntil wait for a transaction, and let the
  wrapped input hand over one whose payload the condition accepts. Then the worker makes a
  channel \<open>tmpRes\<close> that differs from the transaction's own response channel and from the
  channel of every transaction received or sent before, and offers downstream the same
  payload with \<open>tmpRes\<close> as response channel. Once downstream has taken it and has answered
  on \<open>tmpRes\<close> with a response without error, the worker offers that very response to the
  response channel of the original transaction and, when it is taken, stands in the deferred
  function. From the moment the response was received, in every continuation, nothing more
  is received from a wrapped input, nothing more is sent downstream, the condition is not
  evaluated and no input is rebuilt; the worker stays at the relay or in the deferred
  function, the only response it can deliver is this one, and it has delivered it whenever
  it reached the deferred function without taking a \<^verbatim>\<open><-r.closeChan\<close> case.
\<close>

theorem accepted_final_response_ends_stream:
  assumes "NewReadUntil New condition_New c = Inr r0" and "run Check r0 evs = Some r"
    and "at r = AwaitTran" and "wrapped r = Some w" and "fst (Check (cond r) (Payload tran))"
  shows "\<exists>tmpRes r1 r2.
           tmpRes \<notin> ResponseChan ` (set (received r) \<union> set (sent r)) \<and>
           tmpRes \<noteq> ResponseChan tran \<and>
           step Check r (FromWrapped w tran) = Some r1 \<and>
           at r1 = ForwardingFinal tran tmpRes \<and> sent r1 = sent r \<and>
           step Check r1 Taken = Some r2 \<and>
           at r2 = AwaitRes tran tmpRes \<and>
           sent r2 = sent r @ [NewTransaction (Payload tran) tmpRes] \<and>
           received r2 = received r @ [tran] \<and> relayed r2 = relayed r \<and>
           (\<forall>res. Error res = None \<longrightarrow>
              (\<exists>r3 r4.
                 step Check r2 (FinalRes res) = Some r3 \<and> at r3 = Relaying tran res \<and>
                 step Check r3 ResTaken = Some r4 \<and>
                 relayed r4 = relayed r @ [(ResponseChan tran, res)] \<and> cleaning (at r4) \<and>
                 (\<forall>evs' r5. run Check r3 evs' = Some r5 \<longrightarrow>
                    arrivals evs' = [] \<and> received r5 = received r2 \<and> sent r5 = sent r2 \<and>
                    checked r5 = checked r2 \<and> rebuilt r5 = rebuilt r \<and>
                    (at r5 = Relaying tran res \<or> cleaning (at r5)) \<and>
                    (relayed r5 = relayed r \<or>
                     relayed r5 = relayed r @ [(ResponseChan tran, res)]) \<and>
                    (cleaning (at r5) \<and> CloseSignal \<notin> set evs' \<longrightarrow>
                       relayed r5 = relayed r @ [(ResponseChan tran, res)]))))"
proof -
  define tmpRes where "tmpRes = max (heap r) (Suc (ResponseChan tran))"
  define r1 where "r1 = r\<lparr>cond := snd (Check (cond r) (Payload tran)),
                heap := Suc tmpRes,
                received := received r @ [tran],
                checked := checked r @ [(Payload tran, True)],
                at := ForwardingFinal tran tmpRes\<rparr>"
  define r2 where "r2 = r1\<lparr>sent := sent r1 @ [NewTransaction (Payload tran) tmpRes],
                at := AwaitRes tran tmpRes\<rparr>"
  have below: "chans_below r"
    using assms(1,2) by (rule reachable_chans_below)
  have fresh: "tmpRes \<notin> ResponseChan ` (set (received r) \<union> set (sent r))"
  proof
    assume "tmpRes \<in> ResponseChan ` (set (received r) \<union> set (sent r))"
    then obtain t where "t \<in> set (received r) \<union> set (sent r)" and "tmpRes = ResponseChan t"
      by blast
    with below have "tmpRes < heap r"
      by (simp add: chans_below_def)
    then show False
      by (simp add: tmpRes_def)
  qed
  have other: "tmpRes \<noteq> ResponseChan tran"
    by (simp add: tmpRes_def max_def)
  have s1: "step Check r (FromWrapped w tran) = Some r1"
    using assms(3,4,5) by (simp add: step_iff r1_def tmpRes_def)
  have f1: "at r1 = ForwardingFinal tran tmpRes" "sent r1 = sent r"
    by (simp_all add: r1_def)
  have s2: "step Check r1 Taken = Some r2"
    using f1 by (simp add: step_iff r2_def)
  have f2: "at r2 = AwaitRes tran tmpRes" "sent r2 = sent r @ [NewTransaction (Payload tran) tmpRes]"
    "received r2 = received r @ [tran]" "relayed r2 = relayed r" "rebuilt r2 = rebuilt r"
    by (simp_all add: r2_def r1_def)
  have ending: "\<exists>r3 r4.
        step Check r2 (FinalRes res) = Some r3 \<and> at r3 = Relaying tran res \<and>
        step Check r3 ResTaken = Some r4 \<and>
        relayed r4 = relayed r @ [(ResponseChan tran, res)] \<and> cleaning (at r4) \<and>
        (\<forall>evs' r5. run Check r3 evs' = Some r5 \<longrightarrow>
           arrivals evs' = [] \<and> received r5 = received r2 \<and> sent r5 = sent r2 \<and>
           checked r5 = checked r2 \<and> rebuilt r5 = rebuilt r \<and>
           (at r5 = Relaying tran res \<or> cleaning (at r5)) \<and>
           (relayed r5 = relayed r \<or>
            relayed r5 = relayed r @ [(ResponseChan tran, res)]) \<and>
           (cleaning (at r5) \<and> CloseSignal \<notin> set evs' \<longrightarrow>
              relayed r5 = relayed r @ [(ResponseChan tran, res)]))"
    if ack: "Error res = None" for res
  proof -
    define r3 where "r3 = r2\<lparr>at := Relaying tran res\<rparr>"
    define r4 where "r4 = exit_loop (r3\<lparr>relayed := relayed r3 @ [(ResponseChan tran, res)]\<rparr>)"
    have s3: "step Check r2 (FinalRes res) = Some r3"
      using f2(1) by (simp add: step_iff r3_def)
    have f3: "at r3 = Relaying tran res" "relayed r3 = relayed r" "received r3 = received r2"
      "sent r3 = sent r2" "checked r3 = checked r2" "rebuilt r3 = rebuilt r"
      using f2 by (simp_all add: r3_def)
    have s4: "step Check r3 ResTaken = Some r4"
      using f3(1) ack by (simp add: step_iff r4_def)
    have f4: "relayed r4 = relayed r @ [(ResponseChan tran, res)]" "cleaning (at r4)"
      using f3 by (simp_all add: r4_def)
    have after: "arrivals evs' = [] \<and> received r5 = received r2 \<and> sent r5 = sent r2 \<and>
           checked r5 = checked r2 \<and> rebuilt r5 = rebuilt r \<and>
           (at r5 = Relaying tran res \<or> cleaning (at r5)) \<and>
           (relayed r5 = relayed r \<or>
            relayed r5 = relayed r @ [(ResponseChan tran, res)]) \<and>
           (cleaning (at r5) \<and> CloseSignal \<notin> set evs' \<longrightarrow>
              relayed r5 = relayed r @ [(ResponseChan tran, res)])"
      if run5: "run Check r3 evs' = Some r5" for evs' r5
    proof -
      note a = run_relaying [OF f3(1) ack run5]
      from run_arrivals [OF run5] a have "arrivals evs' = []"
        by simp
      with a f3 show ?thesis
        by simp
    qed
    from s3 f3(1) s4 f4 after show ?thesis
      by blast
  qed
  from fresh other s1 f1 s2 f2(1-4) ending show ?thesis
    by blast
qed


theorem accepted_final_response_ends_stream_witness:
  "NewReadUntil (\<lambda>i. Inr 0) (\<lambda>k. Inr ()) file_conf = Inr file_start \<and>
   run (content_equals ''bar'') file_start
     [LoopGuard, FromWrapped 0 (NewTransaction ''foo'' 0), Taken, LoopGuard] = Some basic_mid \<and>
   at basic_mid = AwaitTran \<and> wrapped basic_mid = Some 0 \<and>
   fst (content_equals ''bar'' (cond basic_mid) (Payload (NewTransaction ''bar'' 1))) \<and>
   run (content_equals ''bar'') basic_mid
     [FromWrapped 0 (NewTransaction ''bar'' 1), Taken, FinalRes (NewSimpleResponse None),
      ResTaken, WrappedWaited 0 None, CloseTransactions, CloseClosedChan] = Some basic_final \<and>
   sent basic_final = sent basic_mid @ [NewTransaction ''bar'' 2] \<and>
   received basic_final = received basic_mid @ [NewTransaction ''bar'' 1] \<and>
   relayed basic_final = relayed basic_mid @ [(1, NewSimpleResponse None)]"
proof -
  have at_mid: "at basic_mid = AwaitTran" and wrapped_mid: "wrapped basic_mid = Some 0"
    by (simp_all add: basic_mid_def file_start_def)
  have accept: "fst (content_equals ''bar'' (cond basic_mid) (Payload (NewTransaction ''bar'' 1)))"
    by (simp add: content_equals_def)
  have histories: "sent basic_final = sent basic_mid @ [NewTransaction ''bar'' 2]"
    "received basic_final = received basic_mid @ [NewTransaction ''bar'' 1]"
    "relayed basic_final = relayed basic_mid @ [(1, NewSimpleResponse None)]"
    by (simp_all add: basic_final_def basic_mid_def file_start_def)
  from accepted_final_response_ends_stream
    [OF file_start_built basic_mid_run at_mid wrapped_mid accept]
    file_start_built basic_mid_run at_mid wrapped_mid accept basic_rest_run histories
  show ?thesis
    by blast
qed

section \<open>A rejected final candidate\<close>

text \<open>
  Claim C2. Let the worker of a constructed ReadUntil wait for the response to a final
  candidate, and let the response carry an error. Then the worker offers that response to
  the response channel of the original transaction, and when it is taken the worker stands
  at the loop head: its channels are open, the wrapped input is the one it had and has not
  been asked to close, and nothing was sent, received or rebuilt. From there nothing is sent
  downstream unless a wrapped input hands over another transaction. If no CloseAsync has
  swapped \<open>running\<close>, the loop guard takes the worker to the select of line 205, where it
  can receive any transaction from the same input instance and from no other.
\<close>

theorem rejected_final_response_continues:
  assumes "NewReadUntil New condition_New c = Inr r0" and "run Check r0 evs = Some r"
    and "at r = AwaitRes tran tmpRes" and "Error res \<noteq> None"
  shows "\<exists>w r1 r2.
           wrapped r = Some w \<and>
           step Check r (FinalRes res) = Some r1 \<and> at r1 = Relaying tran res \<and>
           step Check r1 ResTaken = Some r2 \<and>
           relayed r2 = relayed r @ [(ResponseChan tran, res)] \<and>
           at r2 = LoopHead \<and> transactions r2 = Open \<and> closedChan r2 = Open \<and>
           wrapped r2 = Some w \<and> wrapped_closing r2 = wrapped_closing r \<and>
           sent r2 = sent r \<and> received r2 = received r \<and> rebuilt r2 = rebuilt r \<and>
           (\<forall>evs' r'. run Check r2 evs' = Some r' \<and> arrivals evs' = [] \<longrightarrow> sent r' = sent r) \<and>
           (running r = 1 \<longrightarrow>
              (\<exists>r3. step Check r2 LoopGuard = Some r3 \<and> at r3 = AwaitTran \<and>
                 wrapped r3 = Some w \<and> sent r3 = sent r \<and> relayed r3 = relayed r2 \<and>
                 (\<forall>t. step Check r3 (FromWrapped w t) \<noteq> None) \<and>
                 (\<forall>w' t. w' \<noteq> w \<longrightarrow> step Check r3 (FromWrapped w' t) = None)))"
proof -
  have ok: "lifecycle_ok r"
    using assms(1,2) by (rule reachable_lifecycle_ok)
  with assms(3) obtain w where w: "wrapped r = Some w"
    by (auto simp: lifecycle_ok_def)
  from ok assms(3) have chans: "transactions r = Open" "closedChan r = Open"
    by (auto simp: lifecycle_ok_def)
  define r1 where "r1 = r\<lparr>at := Relaying tran res\<rparr>"
  define r2 where "r2 = r1\<lparr>relayed := relayed r1 @ [(ResponseChan tran, res)], at := LoopHead\<rparr>"
  define r3 where "r3 = r2\<lparr>at := AwaitTran\<rparr>"
  have s1: "step Check r (FinalRes res) = Some r1" "at r1 = Relaying tran res"
    using assms(3) by (simp_all add: step_iff r1_def)
  have s2: "step Check r1 ResTaken = Some r2"
    using s1(2) assms(4) by (simp add: step_iff r2_def)
  have f2: "relayed r2 = relayed r @ [(ResponseChan tran, res)]" "at r2 = LoopHead"
    "transactions r2 = Open" "closedChan r2 = Open" "wrapped r2 = Some w"
    "wrapped_closing r2 = wrapped_closing r" "sent r2 = sent r" "received r2 = received r"
    "rebuilt r2 = rebuilt r" "running r2 = running r"
    using w chans by (simp_all add: r2_def r1_def)
  have quiet: "\<forall>evs' r'. run Check r2 evs' = Some r' \<and> arrivals evs' = [] \<longrightarrow> sent r' = sent r"
  proof (intro allI impI, elim conjE)
    fix evs' r'
    assume "run Check r2 evs' = Some r'" and "arrivals evs' = []"
    with run_no_arrival [of r2 Check evs' r'] f2(2,7) show "sent r' = sent r"
      by simp
  qed
  have again: "\<exists>r3. step Check r2 LoopGuard = Some r3 \<and> at r3 = AwaitTran \<and>
                 wrapped r3 = Some w \<and> sent r3 = sent r \<and> relayed r3 = relayed r2 \<and>
                 (\<forall>t. step Check r3 (FromWrapped w t) \<noteq> None) \<and>
                 (\<forall>w' t. w' \<noteq> w \<longrightarrow> step Check r3 (FromWrapped w' t) = None)"
    if run1: "running r = 1"
  proof -
    have s3: "step Check r2 LoopGuard = Some r3"
      using f2 run1 by (simp add: step_iff r3_def)
    have f3: "at r3 = AwaitTran" "wrapped r3 = Some w" "sent r3 = sent r" "relayed r3 = relayed r2"
      using f2 by (simp_all add: r3_def)
    have next_ok: "step Check r3 (FromWrapped w t) \<noteq> None" for t
      using f3(1,2) unfolding not_None_eq
      by (cases "fst (Check (cond r3) (Payload t))") (simp_all add: step_iff)
    have other_no: "step Check r3 (FromWrapped w' t) = None" if "w' \<noteq> w" for w' t
      using f3(1,2) that by (simp add: step_def worker_def)
    from s3 f3 next_ok other_no show ?thesis
      by blast
  qed
  from w s1 s2 f2(1-9) quiet again show ?thesis
    by blast
qed


theorem rejected_final_response_continues_witness:
  "NewReadUntil (\<lambda>i. Inr 0) (\<lambda>k. Inr ()) file_conf = Inr file_start \<and>
   run (content_equals ''bar'') file_start
     [LoopGuard, FromWrapped 0 (NewTransaction ''foo'' 0), Taken,
      LoopGuard, FromWrapped 0 (NewTransaction ''bar'' 1), Taken] = Some retry_mid \<and>
   at retry_mid = AwaitRes (NewTransaction ''bar'' 1) 2 \<and>
   Error (NewSimpleResponse (Some ''failed'')) \<noteq> None \<and>
   running retry_mid = 1 \<and>
   run (content_equals ''bar'') retry_mid
     [FinalRes (NewSimpleResponse (Some ''failed'')), ResTaken, LoopGuard] = Some retry_again \<and>
   at retry_again = AwaitTran \<and> wrapped retry_again = wrapped retry_mid \<and>
   sent retry_again = sent retry_mid \<and>
   relayed retry_again = relayed retry_mid @ [(1, NewSimpleResponse (Some ''failed''))]"
proof -
  have at_mid: "at retry_mid = AwaitRes (NewTransaction ''bar'' 1) 2"
    by (simp add: retry_mid_def)
  have err: "Error (NewSimpleResponse (Some ''failed'')) \<noteq> None"
    by simp
  have fields: "running retry_mid = 1" "at retry_again = AwaitTran"
    "wrapped retry_again = wrapped retry_mid" "sent retry_again = sent retry_mid"
    "relayed retry_again = relayed retry_mid @ [(1, NewSimpleResponse (Some ''failed''))]"
    by (simp_all add: retry_again_def retry_mid_def file_start_def)
  from rejected_final_response_continues [OF file_start_built retry_mid_run at_mid err]
    file_start_built retry_mid_run at_mid err retry_again_run fields
  show ?thesis
    by blast
qed

section \<open>Restart of the wrapped input\<close>




section \<open>Order and completeness of what is sent\<close>

lemma all_rejected_Cons:
  "all_rejected Check cs (p # ps) \<longleftrightarrow>
     \<not> fst (Check cs p) \<and> all_rejected Check (snd (Check cs p)) ps"
  by (simp add: all_rejected_def check_each_Cons del: check_each.simps(2))

lemma deliver_rejected:
  assumes "at r = LoopHead" and "running r = 1" and "wrapped r = Some w"
    and "\<not> fst (Check (cond r) (Payload tran))"
  shows "run Check r (deliver w tran) = Some (passed_on Check [tran] r)"
proof -
  define r1 where "r1 = r\<lparr>at := AwaitTran\<rparr>"
  define r2 where "r2 = r1\<lparr>cond := snd (Check (cond r1) (Payload tran)),
                heap := max (heap r1) (Suc (ResponseChan tran)),
                received := received r1 @ [tran],
                checked := checked r1 @ [(Payload tran, False)],
                at := Forwarding tran\<rparr>"
  define r3 where "r3 = r2\<lparr>sent := sent r2 @ [tran], at := LoopHead\<rparr>"
  have 1: "step Check r LoopGuard = Some r1"
    using assms(1-3) by (simp add: step_iff r1_def)
  have 2: "step Check r1 (FromWrapped w tran) = Some r2"
    using assms(3,4) by (simp add: step_iff r1_def r2_def)
  have 3: "step Check r2 Taken = Some r3"
    by (simp add: step_iff r2_def r3_def)
  have "r3 = passed_on Check [tran] r"
    using assms(1,4)
    by (intro ReadUntil.equality)
      (simp_all add: r3_def r2_def r1_def passed_on_def check_each_Cons del: check_each.simps(2))
  with 1 2 3 show ?thesis
    by (simp add: deliver_def)
qed

lemma passed_on_fields [simp]:
  "at (passed_on Check trs r) = at r"
  "running (passed_on Check trs r) = running r"
  "wrapped (passed_on Check trs r) = wrapped r"
  "conf (passed_on Check trs r) = conf r"
  "transactions (passed_on Check trs r) = transactions r"
  "closedChan (passed_on Check trs r) = closedChan r"
  "closeChan (passed_on Check trs r) = closeChan r"
  "relayed (passed_on Check trs r) = relayed r"
  "rebuilt (passed_on Check trs r) = rebuilt r"
  "wrapped_closing (passed_on Check trs r) = wrapped_closing r"
  "sent (passed_on Check trs r) = sent r @ trs"
  "received (passed_on Check trs r) = received r @ trs"
  "cond (passed_on Check trs r) = snd (check_each Check (cond r) (map Payload trs))"
  "checked (passed_on Check trs r) = checked r @ fst (check_each Check (cond r) (map Payload trs))"
  "heap (passed_on Check trs r) = fold (\<lambda>t h. max h (Suc (ResponseChan t))) trs (heap r)"
  by (simp_all add: passed_on_def)

lemma passed_on_Cons:
  "passed_on Check (tran # trs) r = passed_on Check trs (passed_on Check [tran] r)"
  by (simp add: passed_on_def check_each_Cons del: check_each.simps(2))

lemma deliver_all_rejected:
  "at r = LoopHead \<Longrightarrow> running r = 1 \<Longrightarrow> wrapped r = Some w \<Longrightarrow>
   all_rejected Check (cond r) (map Payload trs) \<Longrightarrow>
     run Check r (deliver_all w trs) = Some (passed_on Check trs r)"
proof (induction trs arbitrary: r)
  case Nil
  then show ?case
    by (simp add: deliver_all_def passed_on_def)
next
  case (Cons tran trs)
  from Cons.prems(4) have rej: "\<not> fst (Check (cond r) (Payload tran))"
    and rest: "all_rejected Check (snd (Check (cond r) (Payload tran))) (map Payload trs)"
    by (simp_all add: all_rejected_Cons)
  let ?r1 = "passed_on Check [tran] r"
  have one: "run Check r (deliver w tran) = Some ?r1"
    using Cons.prems(1-3) rej by (rule deliver_rejected)
  have "run Check ?r1 (deliver_all w trs) = Some (passed_on Check trs ?r1)"
    using Cons.prems(1-3) rest
    by (intro Cons.IH) (simp_all add: check_each_Cons del: check_each.simps(2))
  then have "run Check ?r1 (deliver_all w trs) = Some (passed_on Check (tran # trs) r)"
    by (simp only: passed_on_Cons [symmetric])
  with one show ?case
    by (simp add: deliver_all_def run_append)
qed

lemma offering_iff:
  "offering p \<longleftrightarrow> (\<exists>t. p = Forwarding t) \<or> (\<exists>t c. p = ForwardingFinal t c)"
  by (cases p) simp_all

lemma step_in_order:
  assumes "in_order r" and "step Check r e = Some r'"
  shows "in_order r'"
  using assms
  apply (cases e)
  apply (simp_all add: step_iff)
  apply ((elim disjE exE conjE)?; auto simp: in_order_def offering_iff)+
  done

lemma reachable_in_order:
  assumes "NewReadUntil New condition_New c = Inr r0" and "run Check r0 evs = Some r"
  shows "in_order r"
proof -
  have "in_order r0"
    using assms(1) by (auto simp: NewReadUntil_Inr in_order_def)
  with step_in_order show ?thesis
    using assms(2) by (rule run_invariant)
qed

lemma step_accept_is_last:
  assumes "accept_is_last r" and "step Check r e = Some r'"
    and "\<forall>res. e = FinalRes res \<longrightarrow> Error res = None"
  shows "accept_is_last r'"
  using assms
  apply (cases e)
  apply (simp_all add: step_iff)
  apply ((elim disjE exE conjE)?; auto simp: accept_is_last_def)+
  done

lemma run_accept_is_last:
  "accept_is_last r \<Longrightarrow> run Check r evs = Some r' \<Longrightarrow>
   \<forall>res. FinalRes res \<in> set evs \<longrightarrow> Error res = None \<Longrightarrow> accept_is_last r'"
proof (induction evs arbitrary: r)
  case Nil
  then show ?case by simp
next
  case (Cons e es)
  from Cons.prems(2) obtain r1 where s: "step Check r e = Some r1" and rest: "run Check r1 es = Some r'"
    by (auto split: option.splits)
  have "accept_is_last r1"
    using Cons.prems(1) s Cons.prems(3) by (intro step_accept_is_last [of r Check e r1]) auto
  then show ?case
    using rest Cons.prems(3) by (intro Cons.IH) auto
qed

lemma run_Cons_Some:
  "step Check r e = Some r1 \<Longrightarrow> run Check r (e # es) = run Check r1 es"
  by simp

lemma close_exhausted:
  assumes "at r = LoopHead" and "running r = 1" and "wrapped r = Some w"
    and "\<not> Restart (conf r)" and "transactions r = Open" and "closedChan r = Open"
  shows "\<exists>r'. run Check r [LoopGuard, WrappedClosed w, LoopGuard, CloseTransactions, CloseClosedChan]
              = Some r' \<and>
            sent r' = sent r \<and> received r' = received r \<and> relayed r' = relayed r \<and>
            rebuilt r' = rebuilt r \<and> wrapped_closing r' = wrapped_closing r \<and>
            at r' = Finished \<and> transactions r' = Closed \<and> closedChan r' = Closed"
proof -
  define r1 where "r1 = r\<lparr>at := AwaitTran\<rparr>"
  define r2 where "r2 = r1\<lparr>wrapped := None, at := LoopHead\<rparr>"
  define r3 where "r3 = exit_loop r2"
  define r4 where "r4 = r3\<lparr>transactions := Closed, at := Confirm\<rparr>"
  define r5 where "r5 = r4\<lparr>closedChan := Closed, at := Finished\<rparr>"
  have 1: "step Check r LoopGuard = Some r1"
    using assms(1-3) by (simp add: step_iff r1_def)
  have 2: "step Check r1 (WrappedClosed w) = Some r2"
    using assms(3) by (simp add: step_iff r1_def r2_def)
  have 3: "step Check r2 LoopGuard = Some r3"
    using assms(2,4) by (simp add: step_iff r1_def r2_def r3_def)
  have 4: "step Check r3 CloseTransactions = Some r4"
    using assms(5) by (simp add: step_iff r1_def r2_def r3_def r4_def)
  have 5: "step Check r4 CloseClosedChan = Some r5"
    using assms(6) by (simp add: step_iff r1_def r2_def r3_def r4_def r5_def)
  have run5: "run Check r [LoopGuard, WrappedClosed w, LoopGuard, CloseTransactions, CloseClosedChan]
      = Some r5"
    by (simp only: run_Cons_Some [OF 1] run_Cons_Some [OF 2] run_Cons_Some [OF 3]
        run_Cons_Some [OF 4] run_Cons_Some [OF 5] run.simps(1))
  have "sent r5 = sent r" "received r5 = received r" "relayed r5 = relayed r"
    "rebuilt r5 = rebuilt r" "wrapped_closing r5 = wrapped_closing r"
    "at r5 = Finished" "transactions r5 = Closed" "closedChan r5 = Closed"
    by (simp_all add: r1_def r2_def r3_def r4_def r5_def exit_loop_def)
  with run5 show ?thesis
    by blast
qed

lemma intercept_accepted:
  assumes "at r = LoopHead" and "running r = 1" and "wrapped r = Some w"
    and "fst (Check (cond r) (Payload final))" and "Error res = None"
    and "transactions r = Open" and "closedChan r = Open"
  shows "\<exists>r'. run Check r (deliver w final @
                [FinalRes res, ResTaken, WrappedWaited w None, CloseTransactions, CloseClosedChan])
              = Some r' \<and>
            sent r' = sent r @ [NewTransaction (Payload final) (max (heap r) (Suc (ResponseChan final)))] \<and>
            received r' = received r @ [final] \<and>
            relayed r' = relayed r @ [(ResponseChan final, res)] \<and>
            rebuilt r' = rebuilt r \<and> wrapped_closing r' = wrapped_closing r @ [w] \<and>
            at r' = Finished \<and> transactions r' = Closed \<and> closedChan r' = Closed"
proof -
  let ?tmpRes = "max (heap r) (Suc (ResponseChan final))"
  define r1 where "r1 = r\<lparr>at := AwaitTran\<rparr>"
  define r2 where "r2 = r1\<lparr>cond := snd (Check (cond r1) (Payload final)),
                heap := Suc ?tmpRes,
                received := received r1 @ [final],
                checked := checked r1 @ [(Payload final, True)],
                at := ForwardingFinal final ?tmpRes\<rparr>"
  define r3 where "r3 = r2\<lparr>sent := sent r2 @ [NewTransaction (Payload final) ?tmpRes],
                at := AwaitRes final ?tmpRes\<rparr>"
  define r4 where "r4 = r3\<lparr>at := Relaying final res\<rparr>"
  define r5 where "r5 = exit_loop (r4\<lparr>relayed := relayed r4 @ [(ResponseChan final, res)]\<rparr>)"
  define r6 where "r6 = r5\<lparr>at := CloseOutput\<rparr>"
  define r7 where "r7 = r6\<lparr>transactions := Closed, at := Confirm\<rparr>"
  define r8 where "r8 = r7\<lparr>closedChan := Closed, at := Finished\<rparr>"
  note defs = r1_def r2_def r3_def r4_def r5_def r6_def r7_def r8_def
  have 1: "step Check r LoopGuard = Some r1"
    using assms(1-3) by (simp add: step_iff r1_def)
  have 2: "step Check r1 (FromWrapped w final) = Some r2"
    using assms(3,4) by (simp add: step_iff r1_def r2_def)
  have 3: "step Check r2 Taken = Some r3"
    by (simp add: step_iff r2_def r3_def)
  have 4: "step Check r3 (FinalRes res) = Some r4"
    by (simp add: step_iff r3_def r4_def)
  have 5: "step Check r4 ResTaken = Some r5"
    using assms(5) by (simp add: step_iff r4_def r5_def)
  have 6: "step Check r5 (WrappedWaited w None) = Some r6"
    using assms(3) by (simp add: step_iff defs)
  have 7: "step Check r6 CloseTransactions = Some r7"
    using assms(6) by (simp add: step_iff defs)
  have 8: "step Check r7 CloseClosedChan = Some r8"
    using assms(7) by (simp add: step_iff defs)
  have run8: "run Check r (deliver w final @
                [FinalRes res, ResTaken, WrappedWaited w None, CloseTransactions, CloseClosedChan])
              = Some r8"
    unfolding deliver_def append.simps
    by (simp only: run_Cons_Some [OF 1] run_Cons_Some [OF 2] run_Cons_Some [OF 3]
        run_Cons_Some [OF 4] run_Cons_Some [OF 5] run_Cons_Some [OF 6] run_Cons_Some [OF 7]
        run_Cons_Some [OF 8] run.simps(1))
  have "sent r8 = sent r @ [NewTransaction (Payload final) ?tmpRes]"
    "received r8 = received r @ [final]"
    "relayed r8 = relayed r @ [(ResponseChan final, res)]"
    "rebuilt r8 = rebuilt r" "wrapped_closing r8 = wrapped_closing r @ [w]"
    "at r8 = Finished" "transactions r8 = Closed" "closedChan r8 = Closed"
    using assms(3) by (simp_all add: defs exit_loop_def)
  with run8 show ?thesis
    by blast
qed

lemma finished_absorbs:
  assumes "at r = Finished" and "run Check r evs = Some r'"
  shows "sent r' = sent r \<and> received r' = received r \<and> arrivals evs = []"
proof -
  have "cleaning (at r)"
    using assms(1) by simp
  from run_cleaning [OF this assms(2)] run_arrivals [OF assms(2)] show ?thesis
    by simp
qed

lemma in_order_prefix:
  assumes "in_order r"
  shows "prefix (map Payload (sent r)) (map Payload (received r)) \<and>
         length (received r) \<le> Suc (length (sent r)) \<and>
         (closeChan r = Open \<and> \<not> offering (at r) \<longrightarrow>
            map Payload (sent r) = map Payload (received r))"
proof (cases "offering (at r)")
  case True
  with assms obtain t where "map Payload (received r) = map Payload (sent r) @ [Payload t]"
    by (auto simp: in_order_def offering_iff)
  with True show ?thesis
    using map_eq_imp_length_eq [of Payload "received r" Payload "sent r @ [t]"] by auto
next
  case False
  with assms have "map Payload (received r) = map Payload (sent r) \<or>
      closeChan r = Closed \<and> (\<exists>p. map Payload (received r) = map Payload (sent r) @ [p])"
    by (cases "cleaning (at r)") (auto simp: in_order_def)
  then show ?thesis
  proof
    assume eq: "map Payload (received r) = map Payload (sent r)"
    then have "length (received r) = length (sent r)"
      by (rule map_eq_imp_length_eq)
    with eq show ?thesis
      by simp
  next
    assume "closeChan r = Closed \<and> (\<exists>p. map Payload (received r) = map Payload (sent r) @ [p])"
    then obtain p where closed: "closeChan r = Closed"
      and eq: "map Payload (received r) = map Payload (sent r) @ [p]"
      by blast
    from eq have "length (map Payload (received r)) = length (map Payload (sent r) @ [p])"
      by simp
    then have "length (received r) = Suc (length (sent r))"
      by simp
    with closed eq show ?thesis
      by simp
  qed
qed


lemma never_start_built:
  "NewReadUntil (\<lambda>i. Inr 0) (\<lambda>k. Inr ()) never_conf = Inr never_start"
  by (simp add: NewReadUntil_def never_conf_def never_start_def file_start_def)

lemma input_close_run:
  "run (content_equals ''this never resolves'') never_start (exhausted_events 0 file_lines)
     = Some input_close_final"
  by (simp add: eval_defs exhausted_events_def deliver_all_def deliver_def file_lines_def
      never_start_def never_conf_def file_start_def input_close_final_def content_equals_def)

text \<open>
  Claim C4. Let a ReadUntil be constructed without \<open>restart_input\<close>, let its wrapped input
  hand over the transactions \<open>trs\<close>, all rejected by the condition, and then close its
  channel; let downstream take what is offered and nobody call CloseAsync. Then the run
  exists, the transactions sent downstream are exactly \<open>trs\<close>, unchanged and in order, no
  response is relayed and no input rebuilt or asked to close, the output channel and the
  confirmation channel are closed and WaitForClose returns nil; afterwards nothing is sent
  or received any more. Moreover, under every interleaving: when the worker has finished
  and \<^verbatim>\<open>r.closeChan\<close> was never closed, the payloads sent are exactly the payloads that
  arrived from the wrapped inputs.
\<close>

theorem exhausted_input_forwards_all_then_closes:
  assumes "NewReadUntil New condition_New c = Inr r0" and "\<not> Restart c"
    and "wrapped r0 = Some w" and "all_rejected Check (cond r0) (map Payload trs)"
  shows "(\<exists>r. run Check r0 (exhausted_events w trs) = Some r \<and>
            sent r = trs \<and> received r = trs \<and> relayed r = [] \<and> rebuilt r = [] \<and>
            wrapped_closing r = [] \<and>
            at r = Finished \<and> transactions r = Closed \<and> closedChan r = Closed \<and>
            WaitForClose r ClosedChanReady = Some None \<and>
            (\<forall>evs' r'. run Check r evs' = Some r' \<longrightarrow> sent r' = trs \<and> arrivals evs' = [])) \<and>
         (\<forall>evs r. run Check r0 evs = Some r \<and> at r = Finished \<and> closeChan r = Open \<longrightarrow>
            map Payload (sent r) = map Payload (arrivals evs))"
proof
  from assms(1) have init: "at r0 = LoopHead" "running r0 = 1" "conf r0 = c"
    "transactions r0 = Open" "closedChan r0 = Open" "sent r0 = []" "received r0 = []"
    "relayed r0 = []" "rebuilt r0 = []" "wrapped_closing r0 = []"
    by (auto simp: NewReadUntil_Inr)
  let ?r1 = "passed_on Check trs r0"
  have fed: "run Check r0 (deliver_all w trs) = Some ?r1"
    using init(1,2) assms(3,4) by (rule deliver_all_rejected)
  have "\<exists>r'. run Check ?r1 [LoopGuard, WrappedClosed w, LoopGuard, CloseTransactions, CloseClosedChan]
              = Some r' \<and>
            sent r' = sent ?r1 \<and> received r' = received ?r1 \<and> relayed r' = relayed ?r1 \<and>
            rebuilt r' = rebuilt ?r1 \<and> wrapped_closing r' = wrapped_closing ?r1 \<and>
            at r' = Finished \<and> transactions r' = Closed \<and> closedChan r' = Closed"
    using init assms(2,3) by (intro close_exhausted) simp_all
  then obtain r where tail: "run Check ?r1 [LoopGuard, WrappedClosed w, LoopGuard, CloseTransactions, CloseClosedChan] = Some r"
    and fields: "sent r = trs" "received r = trs" "relayed r = []" "rebuilt r = []"
      "wrapped_closing r = []" "at r = Finished" "transactions r = Closed" "closedChan r = Closed"
    using init by auto
  have whole: "run Check r0 (exhausted_events w trs) = Some r"
    using fed tail by (simp add: exhausted_events_def run_append)
  have waited: "WaitForClose r ClosedChanReady = Some None"
    using fields(8) by (simp add: WaitForClose_def)
  have after: "\<forall>evs' r'. run Check r evs' = Some r' \<longrightarrow> sent r' = trs \<and> arrivals evs' = []"
    using finished_absorbs [OF fields(6)] fields(1) by auto
  from whole fields waited after
  show "\<exists>r. run Check r0 (exhausted_events w trs) = Some r \<and>
            sent r = trs \<and> received r = trs \<and> relayed r = [] \<and> rebuilt r = [] \<and>
            wrapped_closing r = [] \<and>
            at r = Finished \<and> transactions r = Closed \<and> closedChan r = Closed \<and>
            WaitForClose r ClosedChanReady = Some None \<and>
            (\<forall>evs' r'. run Check r evs' = Some r' \<longrightarrow> sent r' = trs \<and> arrivals evs' = [])"
    by blast
next
  show "\<forall>evs r. run Check r0 evs = Some r \<and> at r = Finished \<and> closeChan r = Open \<longrightarrow>
            map Payload (sent r) = map Payload (arrivals evs)"
  proof (intro allI impI, elim conjE)
    fix evs r
    assume run: "run Check r0 evs = Some r" and fin: "at r = Finished" and op: "closeChan r = Open"
    from assms(1) have "received r0 = []"
      by (auto simp: NewReadUntil_Inr)
    with run_arrivals [OF run] have rcv: "received r = arrivals evs"
      by simp
    from in_order_prefix [OF reachable_in_order [OF assms(1) run]] fin op rcv
    show "map Payload (sent r) = map Payload (arrivals evs)"
      by simp
  qed
qed


theorem exhausted_input_forwards_all_then_closes_witness:
  "NewReadUntil (\<lambda>i. Inr 0) (\<lambda>k. Inr ()) never_conf = Inr never_start \<and>
   \<not> Restart never_conf \<and> wrapped never_start = Some 0 \<and>
   all_rejected (content_equals ''this never resolves'') (cond never_start)
     (map Payload file_lines) \<and>
   run (content_equals ''this never resolves'') never_start (exhausted_events 0 file_lines)
     = Some input_close_final \<and>
   sent input_close_final = file_lines \<and>
   transactions input_close_final = Closed \<and> closedChan input_close_final = Closed \<and>
   WaitForClose input_close_final ClosedChanReady = Some None"
proof -
  have pre: "\<not> Restart never_conf" "wrapped never_start = Some 0"
    "all_rejected (content_equals ''this never resolves'') (cond never_start)
       (map Payload file_lines)"
    by (simp_all add: never_conf_def never_start_def file_start_def all_rejected_def
        file_lines_def content_equals_def)
  have fields: "sent input_close_final = file_lines"
    "transactions input_close_final = Closed" "closedChan input_close_final = Closed"
    "WaitForClose input_close_final ClosedChanReady = Some None"
    by (simp_all add: input_close_final_def WaitForClose_def)
  from exhausted_input_forwards_all_then_closes [OF never_start_built pre]
    never_start_built pre input_close_run fields
  show ?thesis
    by blast
qed

text \<open>
  Claim C5. Let the wrapped input of a constructed ReadUntil hand over the transactions
  \<open>trs\<close>, all rejected by the condition, and then \<open>final\<close>, which the condition accepts; let
  downstream take each and acknowledge \<open>final\<close>, and nobody call CloseAsync. Then the run
  exists, the transactions sent are \<open>trs\<close> unchanged followed by the payload of \<open>final\<close> with
  the worker's own response channel, the acknowledgement is relayed to the channel of
  \<open>final\<close>, the worker finishes with both channels closed, and afterwards no transaction
  can be received or sent. Moreover, under every interleaving and for every condition: the
  payloads sent are a prefix of the payloads that arrived, at most one behind, and equal to
  them whenever \<^verbatim>\<open>r.closeChan\<close> is open and the worker is not offering a transaction; and
  if every response to a final candidate was an acknowledgement, no payload but the last
  one checked was accepted, so nothing is received after an accepted one.
\<close>

theorem emits_up_to_first_accepted:
  assumes "NewReadUntil New condition_New c = Inr r0" and "wrapped r0 = Some w"
    and "all_rejected Check (cond r0) (map Payload trs)"
    and "fst (Check (snd (check_each Check (cond r0) (map Payload trs))) (Payload final))"
    and "Error res = None"
  shows "(\<exists>r tmpRes. run Check r0 (accepted_events w trs final res) = Some r \<and>
            sent r = trs @ [NewTransaction (Payload final) tmpRes] \<and>
            map Payload (sent r) = map Payload (trs @ [final]) \<and>
            received r = trs @ [final] \<and> relayed r = [(ResponseChan final, res)] \<and>
            at r = Finished \<and> transactions r = Closed \<and> closedChan r = Closed \<and>
            (\<forall>evs' r'. run Check r evs' = Some r' \<longrightarrow>
               sent r' = sent r \<and> received r' = received r \<and> arrivals evs' = [])) \<and>
         (\<forall>evs r. run Check r0 evs = Some r \<longrightarrow>
            prefix (map Payload (sent r)) (map Payload (arrivals evs)) \<and>
            length (arrivals evs) \<le> Suc (length (sent r)) \<and>
            (closeChan r = Open \<and> \<not> offering (at r) \<longrightarrow>
               map Payload (sent r) = map Payload (arrivals evs)) \<and>
            ((\<forall>res'. FinalRes res' \<in> set evs \<longrightarrow> Error res' = None) \<longrightarrow>
               (\<forall>v \<in> set (butlast (checked r)). \<not> snd v)))"
proof
  from assms(1) have init: "at r0 = LoopHead" "running r0 = 1" "conf r0 = c"
    "transactions r0 = Open" "closedChan r0 = Open" "sent r0 = []" "received r0 = []"
    "relayed r0 = []" "rebuilt r0 = []" "wrapped_closing r0 = []"
    by (auto simp: NewReadUntil_Inr)
  let ?r1 = "passed_on Check trs r0"
  let ?tail = "[FinalRes res, ResTaken, WrappedWaited w None, CloseTransactions, CloseClosedChan]"
  let ?tmpRes = "max (heap ?r1) (Suc (ResponseChan final))"
  have fed: "run Check r0 (deliver_all w trs) = Some ?r1"
    using init(1,2) assms(2,3) by (rule deliver_all_rejected)
  have "\<exists>r'. run Check ?r1 (deliver w final @ ?tail) = Some r' \<and>
            sent r' = sent ?r1 @ [NewTransaction (Payload final) ?tmpRes] \<and>
            received r' = received ?r1 @ [final] \<and>
            relayed r' = relayed ?r1 @ [(ResponseChan final, res)] \<and>
            rebuilt r' = rebuilt ?r1 \<and> wrapped_closing r' = wrapped_closing ?r1 @ [w] \<and>
            at r' = Finished \<and> transactions r' = Closed \<and> closedChan r' = Closed"
    using init assms(2,4,5) by (intro intercept_accepted) simp_all
  then obtain r where tail: "run Check ?r1 (deliver w final @ ?tail) = Some r"
    and fields: "sent r = trs @ [NewTransaction (Payload final) ?tmpRes]"
      "received r = trs @ [final]" "relayed r = [(ResponseChan final, res)]"
      "at r = Finished" "transactions r = Closed" "closedChan r = Closed"
    using init by auto
  have whole: "run Check r0 (accepted_events w trs final res) = Some r"
    using fed tail by (simp add: accepted_events_def run_append)
  have payloads: "map Payload (sent r) = map Payload (trs @ [final])"
    using fields(1) by simp
  have after: "\<forall>evs' r'. run Check r evs' = Some r' \<longrightarrow>
               sent r' = sent r \<and> received r' = received r \<and> arrivals evs' = []"
    using finished_absorbs [OF fields(4)] by auto
  from whole fields payloads after
  show "\<exists>r tmpRes. run Check r0 (accepted_events w trs final res) = Some r \<and>
            sent r = trs @ [NewTransaction (Payload final) tmpRes] \<and>
            map Payload (sent r) = map Payload (trs @ [final]) \<and>
            received r = trs @ [final] \<and> relayed r = [(ResponseChan final, res)] \<and>
            at r = Finished \<and> transactions r = Closed \<and> closedChan r = Closed \<and>
            (\<forall>evs' r'. run Check r evs' = Some r' \<longrightarrow>
               sent r' = sent r \<and> received r' = received r \<and> arrivals evs' = [])"
    by blast
next
  show "\<forall>evs r. run Check r0 evs = Some r \<longrightarrow>
            prefix (map Payload (sent r)) (map Payload (arrivals evs)) \<and>
            length (arrivals evs) \<le> Suc (length (sent r)) \<and>
            (closeChan r = Open \<and> \<not> offering (at r) \<longrightarrow>
               map Payload (sent r) = map Payload (arrivals evs)) \<and>
            ((\<forall>res'. FinalRes res' \<in> set evs \<longrightarrow> Error res' = None) \<longrightarrow>
               (\<forall>v \<in> set (butlast (checked r)). \<not> snd v))"
  proof (intro allI impI)
    fix evs r
    assume run: "run Check r0 evs = Some r"
    from assms(1) have init: "received r0 = []" "accept_is_last r0"
      by (auto simp: NewReadUntil_Inr accept_is_last_def)
    with run_arrivals [OF run] have rcv: "received r = arrivals evs"
      by simp
    have last: "\<forall>v \<in> set (butlast (checked r)). \<not> snd v"
      if "\<forall>res'. FinalRes res' \<in> set evs \<longrightarrow> Error res' = None"
      using run_accept_is_last [OF init(2) run that] by (simp add: accept_is_last_def)
    from in_order_prefix [OF reachable_in_order [OF assms(1) run]] rcv last
    show "prefix (map Payload (sent r)) (map Payload (arrivals evs)) \<and>
            length (arrivals evs) \<le> Suc (length (sent r)) \<and>
            (closeChan r = Open \<and> \<not> offering (at r) \<longrightarrow>
               map Payload (sent r) = map Payload (arrivals evs)) \<and>
            ((\<forall>res'. FinalRes res' \<in> set evs \<longrightarrow> Error res' = None) \<longrightarrow>
               (\<forall>v \<in> set (butlast (checked r)). \<not> snd v))"
      by simp
  qed
qed


theorem emits_up_to_first_accepted_witness:
  "NewReadUntil (\<lambda>i. Inr 0) (\<lambda>k. Inr ()) file_conf = Inr file_start \<and>
   wrapped file_start = Some 0 \<and>
   all_rejected (content_equals ''bar'') (cond file_start) (map Payload [NewTransaction ''foo'' 0]) \<and>
   fst (content_equals ''bar''
     (snd (check_each (content_equals ''bar'') (cond file_start)
        (map Payload [NewTransaction ''foo'' 0])))
     (Payload (NewTransaction ''bar'' 1))) \<and>
   Error (NewSimpleResponse None) = None \<and>
   accepted_events 0 [NewTransaction ''foo'' 0] (NewTransaction ''bar'' 1) (NewSimpleResponse None)
     = basic_events \<and>
   run (content_equals ''bar'') file_start basic_events = Some basic_final \<and>
   map Payload (sent basic_final) = [''foo'', ''bar''] \<and>
   map Payload (arrivals basic_events) = [''foo'', ''bar'']"
proof -
  have pre: "wrapped file_start = Some 0"
    "all_rejected (content_equals ''bar'') (cond file_start) (map Payload [NewTransaction ''foo'' 0])"
    "fst (content_equals ''bar''
       (snd (check_each (content_equals ''bar'') (cond file_start)
          (map Payload [NewTransaction ''foo'' 0])))
       (Payload (NewTransaction ''bar'' 1)))"
    "Error (NewSimpleResponse None) = None"
    by (simp_all add: file_start_def all_rejected_def content_equals_def)
  have events: "accepted_events 0 [NewTransaction ''foo'' 0] (NewTransaction ''bar'' 1)
       (NewSimpleResponse None) = basic_events"
    by (simp add: accepted_events_def deliver_all_def deliver_def basic_events_def)
  have fields: "map Payload (sent basic_final) = [''foo'', ''bar'']"
    "map Payload (arrivals basic_events) = [''foo'', ''bar'']"
    by (simp_all add: basic_final_def basic_events_def)
  from emits_up_to_first_accepted [OF file_start_built pre]
    file_start_built pre events basic_run fields
  show ?thesis
    by blast
qed

section \<open>Serialising and parsing the configuration\<close>






end
